theory Spec2Isabelle
  imports Main "HOL-Library.Sublist" "HOL-Library.AList"
begin

section \<open>File integrity monitor: the model of file_checker.py\<close>

text \<open>
  The module keeps a JSON state file (HASH_FILE) with the SHA-256 digest of every file
  under a watched folder, rescans the folder periodically, reports added, modified and
  deleted files, and rewrites the state file. The model passes the outside world
  explicitly: the two state files, the directory listing that \<^verbatim>\<open>os.walk\<close> yields, the
  bytes of the watched files, the mail server, and the trace of effects the module has
  produced (log records, console lines, mails, files opened for writing).

  Python \<^verbatim>\<open>str\<close> values are \<^typ>\<open>string\<close>; paths use the POSIX separator. The three
  library functions the module calls but does not define (\<^verbatim>\<open>hashlib.sha256\<close>,
  \<^verbatim>\<open>json.dump\<close>, \<^verbatim>\<open>json.load\<close>) are parameters, collected with the module-level
  constants in the record \<open>env\<close>; the text of a file is a type parameter \<open>'t\<close>.
\<close>

subsection \<open>Values, exceptions, effects\<close>

text \<open>
  What \<^verbatim>\<open>json.load\<close> can return. A JSON object is a Python dict, kept as an association
  list in insertion order; JSON numbers are kept as integers (in this module a number is
  only ever tested for membership or compared with a \<^verbatim>\<open>str\<close>, where every number
  behaves alike).
\<close>

datatype json =
    JNull
  | JBool bool
  | JNum int
  | JStr string
  | JArr "json list"
  | JObj "(string \<times> json) list"

datatype exn = OSError | UnicodeDecodeError | TypeError | KeyError | AttributeError

datatype level = INFO | WARNING | ERROR

datatype file_id = HASH_FILE | BACKUP_FILE

text \<open>One constructor per message of the module (the exception text \<^verbatim>\<open>{e}\<close> and the
  timestamps are left out).\<close>

datatype msg =
    BackupCreated
  | ErrorCreatingBackup
  | ErrorHashing string
  | ErrorReadingHashFile
  | ErrorSavingHashes
  | EmailCredentialsNotSet
  | EmailAlertSent string string
  | FailedToSendEmail
  | FileChanged string
  | NewFileDetected string
  | FileDeleted string
  | Checked nat
  | Monitoring nat
  | RealTimeMonitoring
  | StoppedByUser

text \<open>
  The effects of the module, in the order they happen: a log record, a line on the
  console, a mail handed to the server (path, change type), and \<open>OpenW f\<close>: the module
  calls \<^verbatim>\<open>open(f, 'w')\<close> (whether or not the call, or the write after it, succeeds).
\<close>

datatype event =
    Log level msg
  | Print msg
  | Sendmail string string
  | OpenW file_id

subsection \<open>The outside world\<close>

text \<open>
  A state file on disk: its text (\<open>None\<close> when the path does not exist), the exception
  that opening or reading it in text mode raises, if any (an \<^verbatim>\<open>OSError\<close> such as
  permission denied, or \<^verbatim>\<open>UnicodeDecodeError\<close> for bytes that are not text), and how the
  next write fails if it does. \<^verbatim>\<open>open(path, 'w')\<close> either fails before touching the file
  (\<open>OpenFails\<close>) or truncates it, after which a failing write leaves some residue \<open>r\<close>
  behind (\<open>WriteFails r\<close>).
\<close>

datatype 't wfault = OpenFails | WriteFails 't

record 't disk_file =
  content :: "'t option"
  read_fault :: "exn option"
  write_fault :: "'t wfault option"

record 't world =
  hash_file :: "'t disk_file"
  backup_file :: "'t disk_file"
  os_walk :: "(string \<times> string list) list"
  file_bytes :: "string \<Rightarrow> string option"
  smtp_ok :: "string \<Rightarrow> string \<Rightarrow> bool"
  trace :: "event list"

text \<open>
  \<open>os_walk\<close> is what \<^verbatim>\<open>os.walk(FOLDER_TO_MONITOR)\<close> yields, as (root, files) pairs (the
  module ignores the list of subdirectories). \<open>file_bytes p\<close> is the content of the file
  at path \<open>p\<close>, \<open>None\<close> when opening or reading it raises. \<open>smtp_ok p c\<close> says whether
  the mail for path \<open>p\<close> and change type \<open>c\<close> is delivered without an exception.
\<close>

record 't env =
  sha256_hexdigest :: "string \<Rightarrow> string"
  json_dumps :: "json \<Rightarrow> 't"
  json_loads :: "'t \<Rightarrow> json option"
  EMAIL_SENDER :: "string option"
  EMAIL_PASSWORD :: "string option"
  EMAIL_RECEIVER :: "string option"
  EXCLUDE_EXTENSIONS :: "string list"
  EXCLUDE_DIRECTORIES :: "string list"

text \<open>
  \<open>json_dumps v\<close> is the text \<^verbatim>\<open>json.dump(v, f, indent=4)\<close> writes; \<open>json_loads t\<close> is
  the value \<^verbatim>\<open>json.load\<close> parses from the text \<open>t\<close>, \<open>None\<close> when it raises
  \<^verbatim>\<open>JSONDecodeError\<close>. The values of the source's module constants:
\<close>

definition source_EXCLUDE_EXTENSIONS :: "string list" where
  "source_EXCLUDE_EXTENSIONS = [''.tmp'', ''.log'']"

definition source_EXCLUDE_DIRECTORIES :: "string list" where
  "source_EXCLUDE_DIRECTORIES = [''__pycache__'', ''.git'']"

definition path_exists :: "'t disk_file \<Rightarrow> bool" where
  "path_exists f = (content f \<noteq> None)"

definition read_text :: "'t disk_file \<Rightarrow> exn + 't" where
  "read_text f =
     (case content f of
        None \<Rightarrow> Inl OSError
      | Some t \<Rightarrow> (case read_fault f of Some e \<Rightarrow> Inl e | None \<Rightarrow> Inr t))"

definition write_text :: "'t disk_file \<Rightarrow> 't \<Rightarrow> 't disk_file \<times> exn option" where
  "write_text f t =
     (case write_fault f of
        None \<Rightarrow> (f\<lparr>content := Some t\<rparr>, None)
      | Some OpenFails \<Rightarrow> (f, Some OSError)
      | Some (WriteFails r) \<Rightarrow> (f\<lparr>content := Some r\<rparr>, Some OSError))"

definition emit :: "event \<Rightarrow> 't world \<Rightarrow> 't world" where
  "emit e w = w\<lparr>trace := trace w @ [e]\<rparr>"

definition logging :: "level \<Rightarrow> msg \<Rightarrow> 't world \<Rightarrow> 't world" where
  "logging l m w = emit (Log l m) w"

definition print :: "msg \<Rightarrow> 't world \<Rightarrow> 't world" where
  "print m w = emit (Print m) w"

subsection \<open>Python operations on the loaded value\<close>

text \<open>\<^verbatim>\<open>filepath in hashes\<close>: key membership for a dict, element membership for a list,
  substring test for a str, \<^verbatim>\<open>TypeError\<close> otherwise.\<close>

fun py_in :: "string \<Rightarrow> json \<Rightarrow> exn + bool" where
  "py_in k (JObj d) = Inr (k \<in> set (map fst d))"
| "py_in k (JArr xs) = Inr (JStr k \<in> set xs)"
| "py_in k (JStr s) = Inr (sublist k s)"
| "py_in k JNull = Inl TypeError"
| "py_in k (JBool b) = Inl TypeError"
| "py_in k (JNum n) = Inl TypeError"

text \<open>\<^verbatim>\<open>hashes[filepath]\<close> with a str index.\<close>

fun py_getitem :: "json \<Rightarrow> string \<Rightarrow> exn + json" where
  "py_getitem (JObj d) k = (case map_of d k of None \<Rightarrow> Inl KeyError | Some v \<Rightarrow> Inr v)"
| "py_getitem JNull k = Inl TypeError"
| "py_getitem (JBool b) k = Inl TypeError"
| "py_getitem (JNum n) k = Inl TypeError"
| "py_getitem (JStr s) k = Inl TypeError"
| "py_getitem (JArr xs) k = Inl TypeError"

text \<open>\<^verbatim>\<open>hashes.keys()\<close>.\<close>

fun py_keys :: "json \<Rightarrow> exn + string list" where
  "py_keys (JObj d) = Inr (map fst d)"
| "py_keys JNull = Inl AttributeError"
| "py_keys (JBool b) = Inl AttributeError"
| "py_keys (JNum n) = Inl AttributeError"
| "py_keys (JStr s) = Inl AttributeError"
| "py_keys (JArr xs) = Inl AttributeError"

text \<open>The dict \<^verbatim>\<open>current_files\<close> (str to str) as the JSON value \<^verbatim>\<open>json.dump\<close> receives.\<close>

definition dict_json :: "(string \<times> string) list \<Rightarrow> json" where
  "dict_json d = JObj (map (\<lambda>(k, h). (k, JStr h)) d)"

text \<open>\<^verbatim>\<open>posixpath.join(a, b)\<close>.\<close>

definition os_path_join :: "string \<Rightarrow> string \<Rightarrow> string" where
  "os_path_join a b =
     (if prefix ''/'' b then b
      else if a = [] \<or> suffix ''/'' a then a @ b
      else a @ ''/'' @ b)"

subsection \<open>backup_hashes, calculate_file_hash, load_hashes, save_hashes\<close>

definition backup_hashes :: "'t world \<Rightarrow> 't world" where
  "backup_hashes w =
     (if path_exists (hash_file w) then
        (case read_text (hash_file w) of
           Inl e \<Rightarrow> logging ERROR ErrorCreatingBackup w
         | Inr data \<Rightarrow>
             (case write_text (backup_file w) data of
                (bf, raised) \<Rightarrow>
                  (let w1 = emit (OpenW BACKUP_FILE) (w\<lparr>backup_file := bf\<rparr>)
                   in case raised of
                        Some e \<Rightarrow> logging ERROR ErrorCreatingBackup w1
                      | None \<Rightarrow> logging INFO BackupCreated w1)))
      else w)"

text \<open>
  The read loop of \<open>calculate_file_hash\<close>: \<^verbatim>\<open>while chunk := file.read(4096):
  hasher.update(chunk)\<close>. \<open>rest\<close> is the unread part of the file, \<open>fed\<close> the bytes the
  hasher has been given so far.
\<close>

function read_chunks :: "string \<Rightarrow> string \<Rightarrow> string" where
  "read_chunks rest fed =
     (let chunk = take 4096 rest
      in if chunk \<noteq> [] then read_chunks (drop 4096 rest) (fed @ chunk) else fed)"
  by pat_completeness auto
termination
  by (relation "measure (\<lambda>(rest, fed). length rest)") auto

declare read_chunks.simps [simp del]

definition calculate_file_hash ::
  "'t env \<Rightarrow> string \<Rightarrow> 't world \<Rightarrow> string option \<times> 't world" where
  "calculate_file_hash E filepath w =
     (case file_bytes w filepath of
        None \<Rightarrow> (None, logging ERROR (ErrorHashing filepath) w)
      | Some bs \<Rightarrow> (Some (sha256_hexdigest E (read_chunks bs [])), w))"

definition load_hashes :: "'t env \<Rightarrow> 't world \<Rightarrow> (exn + json) \<times> 't world" where
  "load_hashes E w =
     (if path_exists (hash_file w) then
        (case read_text (hash_file w) of
           Inl e \<Rightarrow> (Inl e, w)
         | Inr t \<Rightarrow>
             (case json_loads E t of
                None \<Rightarrow> (Inr (JObj []), logging WARNING ErrorReadingHashFile w)
              | Some v \<Rightarrow> (Inr v, w)))
      else (Inr (JObj []), w))"

definition save_hashes :: "'t env \<Rightarrow> (string \<times> string) list \<Rightarrow> 't world \<Rightarrow> 't world" where
  "save_hashes E hashes w =
     (let w1 = backup_hashes w
      in case write_text (hash_file w1) (json_dumps E (dict_json hashes)) of
           (hf, raised) \<Rightarrow>
             (let w2 = emit (OpenW HASH_FILE) (w1\<lparr>hash_file := hf\<rparr>)
              in case raised of
                   Some e \<Rightarrow> logging ERROR ErrorSavingHashes w2
                 | None \<Rightarrow> w2))"

subsection \<open>send_email_alert\<close>

definition falsy :: "string option \<Rightarrow> bool" where
  "falsy x = (x = None \<or> x = Some [])"

definition send_email_alert :: "'t env \<Rightarrow> string \<Rightarrow> string \<Rightarrow> 't world \<Rightarrow> 't world" where
  "send_email_alert E filepath change_type w =
     (if falsy (EMAIL_SENDER E) \<or> falsy (EMAIL_PASSWORD E) \<or> falsy (EMAIL_RECEIVER E)
      then logging WARNING EmailCredentialsNotSet w
      else if smtp_ok w filepath change_type
      then logging INFO (EmailAlertSent filepath change_type)
             (emit (Sendmail filepath change_type) w)
      else logging ERROR FailedToSendEmail w)"

subsection \<open>check_folder\<close>

text \<open>
  The local variables of \<open>check_folder\<close>, with the world. \<open>branch_taken\<close> is not a
  variable of the source: it records, for every file that was hashed, which branch of
  lines 136 to 146 it took (\<open>Unchanged\<close> is the silent case where the stored digest
  equals the new one).
\<close>

datatype change = Added | Modified | Unchanged

record 't frame =
  hashes :: json
  changes_detected :: bool
  file_count :: nat
  current_files :: "(string \<times> string) list"
  branch_taken :: "(string \<times> change) list"
  deleted_files :: "string list"
  world :: "'t world"

text \<open>The body of the inner loop, lines 126 to 146, for one file name of one root.\<close>

definition check_file :: "'t env \<Rightarrow> string \<Rightarrow> string \<Rightarrow> 't frame \<Rightarrow> exn + 't frame" where
  "check_file E root file s =
     (if (\<exists>ext \<in> set (EXCLUDE_EXTENSIONS E). suffix ext file) then Inr s
      else
        (let filepath = os_path_join root file
         in case calculate_file_hash E filepath (world s) of
              (None, w1) \<Rightarrow> Inr (s\<lparr>world := w1\<rparr>)
            | (Some file_hash, w1) \<Rightarrow>
                if file_hash = [] then Inr (s\<lparr>world := w1\<rparr>)
                else
                  (let s1 = s\<lparr>current_files := AList.update filepath file_hash (current_files s),
                              file_count := file_count s + 1,
                              world := w1\<rparr>
                   in case py_in filepath (hashes s1) of
                        Inl e \<Rightarrow> Inl e
                      | Inr True \<Rightarrow>
                          (case py_getitem (hashes s1) filepath of
                             Inl e \<Rightarrow> Inl e
                           | Inr v \<Rightarrow>
                               if v \<noteq> JStr file_hash then
                                 Inr (s1\<lparr>changes_detected := True,
                                         branch_taken := branch_taken s1 @ [(filepath, Modified)],
                                         world := send_email_alert E filepath ''Modified''
                                                    (logging WARNING (FileChanged filepath)
                                                      (print (FileChanged filepath) w1))\<rparr>)
                               else
                                 Inr (s1\<lparr>branch_taken := branch_taken s1 @ [(filepath, Unchanged)]\<rparr>))
                      | Inr False \<Rightarrow>
                          Inr (s1\<lparr>changes_detected := True,
                                  branch_taken := branch_taken s1 @ [(filepath, Added)],
                                  world := send_email_alert E filepath ''New File Added''
                                             (logging INFO (NewFileDetected filepath)
                                               (print (NewFileDetected filepath) w1))\<rparr>))))"

text \<open>The inner loop, \<^verbatim>\<open>for file in files\<close>.\<close>

fun check_files :: "'t env \<Rightarrow> string \<Rightarrow> string list \<Rightarrow> 't frame \<Rightarrow> exn + 't frame" where
  "check_files E root [] s = Inr s"
| "check_files E root (file # files) s =
     (case check_file E root file s of
        Inl e \<Rightarrow> Inl e
      | Inr s1 \<Rightarrow> check_files E root files s1)"

text \<open>The outer loop, \<^verbatim>\<open>for root, _, files in os.walk(FOLDER_TO_MONITOR)\<close>.\<close>

fun check_roots :: "'t env \<Rightarrow> (string \<times> string list) list \<Rightarrow> 't frame \<Rightarrow> exn + 't frame" where
  "check_roots E [] s = Inr s"
| "check_roots E ((root, files) # rest) s =
     (if (\<exists>excluded \<in> set (EXCLUDE_DIRECTORIES E). sublist excluded root)
      then check_roots E rest s
      else
        (case check_files E root files s of
           Inl e \<Rightarrow> Inl e
         | Inr s1 \<Rightarrow> check_roots E rest s1))"

text \<open>The body of \<^verbatim>\<open>for deleted_file in deleted_files\<close>, lines 151 to 154.\<close>

definition report_deleted :: "'t env \<Rightarrow> string \<Rightarrow> 't frame \<Rightarrow> 't frame" where
  "report_deleted E deleted_file s =
     s\<lparr>changes_detected := True,
       world := send_email_alert E deleted_file ''Deleted''
                  (logging WARNING (FileDeleted deleted_file)
                    (print (FileDeleted deleted_file) (world s)))\<rparr>"

text \<open>
  Lines 116 to 154: load, walk, report the deleted files. The set \<open>deleted_files\<close> is
  iterated in the order of the keys of \<open>hashes\<close> (Python leaves the order of a set open).
\<close>

definition check_folder_scan :: "'t env \<Rightarrow> 't world \<Rightarrow> exn + 't frame" where
  "check_folder_scan E w =
     (case load_hashes E w of
        (Inl e, w0) \<Rightarrow> Inl e
      | (Inr h, w0) \<Rightarrow>
          (case check_roots E (os_walk w0)
                  \<lparr>hashes = h, changes_detected = False, file_count = 0, current_files = [],
                   branch_taken = [], deleted_files = [], world = w0\<rparr> of
             Inl e \<Rightarrow> Inl e
           | Inr s \<Rightarrow>
               (case py_keys (hashes s) of
                  Inl e \<Rightarrow> Inl e
                | Inr ks \<Rightarrow>
                    (let dels = filter (\<lambda>k. k \<notin> set (map fst (current_files s))) (remdups ks)
                     in Inr (fold (report_deleted E) dels (s\<lparr>deleted_files := dels\<rparr>))))))"

text \<open>Lines 160 to 162: the summary line in the log and on the console.\<close>

definition summary :: "'t frame \<Rightarrow> 't frame" where
  "summary s =
     s\<lparr>world := print (Monitoring (file_count s))
                  (logging INFO (Checked (file_count s)) (world s))\<rparr>"

text \<open>Line 157: \<^verbatim>\<open>changes_detected or hashes.keys() != current_files.keys()\<close>; key views
  compare as sets.\<close>

definition save_needed :: "'t frame \<Rightarrow> exn + bool" where
  "save_needed s =
     (if changes_detected s then Inr True
      else case py_keys (hashes s) of
             Inl e \<Rightarrow> Inl e
           | Inr ks \<Rightarrow> Inr (set ks \<noteq> set (map fst (current_files s))))"

definition check_folder :: "'t env \<Rightarrow> 't world \<Rightarrow> exn + 't frame" where
  "check_folder E w =
     (case check_folder_scan E w of
        Inl e \<Rightarrow> Inl e
      | Inr s \<Rightarrow>
          (case save_needed s of
             Inl e \<Rightarrow> Inl e
           | Inr True \<Rightarrow> Inr (summary (s\<lparr>world := save_hashes E (current_files s) (world s)\<rparr>))
           | Inr False \<Rightarrow> Inr (summary s)))"

text \<open>
  The cycle as the specification words it: the same scan, then the new snapshot is
  persisted on every pass. It is not the source; it is what the source is compared with.
\<close>

definition check_folder_always_saving :: "'t env \<Rightarrow> 't world \<Rightarrow> exn + 't frame" where
  "check_folder_always_saving E w =
     (case check_folder_scan E w of
        Inl e \<Rightarrow> Inl e
      | Inr s \<Rightarrow> Inr (summary (s\<lparr>world := save_hashes E (current_files s) (world s)\<rparr>)))"

subsection \<open>monitor_files\<close>

text \<open>
  The loop \<^verbatim>\<open>while True: check_folder(); time.sleep(CHECK_INTERVAL)\<close> runs until
  Ctrl+C. The list \<open>ticks\<close> holds, for each pass that happens before the interrupt, what
  the outside does to the world during the following sleep; the interrupt arrives when
  the list is used up. Only \<^verbatim>\<open>KeyboardInterrupt\<close> is caught, so any exception of
  \<open>check_folder\<close> ends the process: the result \<open>Inl e\<close>.
\<close>

fun monitor_loop :: "'t env \<Rightarrow> ('t world \<Rightarrow> 't world) list \<Rightarrow> 't world \<Rightarrow> exn + 't world" where
  "monitor_loop E [] w = Inr w"
| "monitor_loop E (tick # ticks) w =
     (case check_folder E w of
        Inl e \<Rightarrow> Inl e
      | Inr s \<Rightarrow> monitor_loop E ticks (tick (world s)))"

definition monitor_files :: "'t env \<Rightarrow> ('t world \<Rightarrow> 't world) list \<Rightarrow> 't world \<Rightarrow> exn + 't world" where
  "monitor_files E ticks w =
     (case monitor_loop E ticks (print RealTimeMonitoring w) of
        Inl e \<Rightarrow> Inl e
      | Inr w1 \<Rightarrow> Inr (logging INFO StoppedByUser (print StoppedByUser w1)))"

subsection \<open>Notions the properties are stated with\<close>

text \<open>The branch a hashed file takes at lines 136 to 146, given the stored dict \<open>hs\<close>,
  the path and the new digest.\<close>

definition classify :: "(string \<times> json) list \<Rightarrow> string \<Rightarrow> string \<Rightarrow> change" where
  "classify hs p h =
     (if p \<in> set (map fst hs)
      then (if map_of hs p \<noteq> Some (JStr h) then Modified else Unchanged)
      else Added)"

text \<open>The paths of one class, and the four sets of a finished scan.\<close>

definition paths_of :: "change \<Rightarrow> 't frame \<Rightarrow> string set" where
  "paths_of c s = {p. (p, c) \<in> set (branch_taken s)}"

definition added :: "'t frame \<Rightarrow> string set" where
  "added s = paths_of Added s"

definition modified :: "'t frame \<Rightarrow> string set" where
  "modified s = paths_of Modified s"

definition unchanged :: "'t frame \<Rightarrow> string set" where
  "unchanged s = paths_of Unchanged s"

definition deleted :: "'t frame \<Rightarrow> string set" where
  "deleted s = set (deleted_files s)"

text \<open>The keys of the old snapshot (the loaded dict) and of the new one.\<close>

definition old_keys :: "'t frame \<Rightarrow> string set" where
  "old_keys s = (case hashes s of JObj hs \<Rightarrow> set (map fst hs) | _ \<Rightarrow> {})"

definition new_keys :: "'t frame \<Rightarrow> string set" where
  "new_keys s = set (map fst (current_files s))"

text \<open>
  The changes a trace reports: a new file is logged as \<open>NewFileDetected\<close>, a changed one
  as \<open>FileChanged\<close>, a deleted one as \<open>FileDeleted\<close> (lines 139, 144 and 152); nothing is
  logged for an unchanged file.
\<close>

definition report_of :: "event \<Rightarrow> (string \<times> change) list" where
  "report_of e =
     (case e of
        Log l m \<Rightarrow>
          (case m of
             NewFileDetected p \<Rightarrow> [(p, Added)]
           | FileChanged p \<Rightarrow> [(p, Modified)]
           | _ \<Rightarrow> [])
      | _ \<Rightarrow> [])"

definition reported :: "event list \<Rightarrow> (string \<times> change) list" where
  "reported tr = concat (map report_of tr)"

definition deletion_of :: "event \<Rightarrow> string list" where
  "deletion_of e =
     (case e of
        Log l m \<Rightarrow> (case m of FileDeleted p \<Rightarrow> [p] | _ \<Rightarrow> [])
      | _ \<Rightarrow> [])"

definition reported_deleted :: "event list \<Rightarrow> string list" where
  "reported_deleted tr = concat (map deletion_of tr)"

text \<open>How often a trace opens a file for writing.\<close>

definition opens :: "file_id \<Rightarrow> event list \<Rightarrow> nat" where
  "opens f tr = length (filter (\<lambda>e. e = OpenW f) tr)"

text \<open>The files opened for writing, in the order of the trace.\<close>

fun opened :: "event list \<Rightarrow> file_id list" where
  "opened [] = []"
| "opened (OpenW f # tr) = f # opened tr"
| "opened (Log l m # tr) = opened tr"
| "opened (Print m # tr) = opened tr"
| "opened (Sendmail p c # tr) = opened tr"

text \<open>The two exclusion tests of the source, lines 122 and 126.\<close>

definition dir_excluded :: "'t env \<Rightarrow> string \<Rightarrow> bool" where
  "dir_excluded E root = (\<exists>excluded \<in> set (EXCLUDE_DIRECTORIES E). sublist excluded root)"

definition ext_excluded :: "'t env \<Rightarrow> string \<Rightarrow> bool" where
  "ext_excluded E file = (\<exists>ext \<in> set (EXCLUDE_EXTENSIONS E). suffix ext file)"

text \<open>
  The exclusion rule as the specification words it. \<open>segments root\<close> are the directory
  names of a root (\<^verbatim>\<open>root.split('/')\<close>); a segment matches a fragment when the fragment
  occurs in it.
\<close>

fun segments :: "string \<Rightarrow> string list" where
  "segments [] = [[]]"
| "segments (c # cs) =
     (if c = CHR ''/'' then [] # segments cs
      else (case segments cs of seg # segs \<Rightarrow> (c # seg) # segs | [] \<Rightarrow> [[c]]))"

definition spec_excluded :: "'t env \<Rightarrow> string \<Rightarrow> string \<Rightarrow> bool" where
  "spec_excluded E root file =
     ((\<exists>seg \<in> set (segments root). \<exists>frag \<in> set (EXCLUDE_DIRECTORIES E). sublist frag seg)
      \<or> (\<exists>ext \<in> set (EXCLUDE_EXTENSIONS E). suffix ext file))"

text \<open>Python's \<open>==\<close> on two dicts: the same keys with the same values, in any order.\<close>

definition dict_eq :: "(string \<times> json) list \<Rightarrow> (string \<times> json) list \<Rightarrow> bool" where
  "dict_eq a b =
     (set (map fst a) = set (map fst b) \<and> (\<forall>k \<in> set (map fst a). map_of a k = map_of b k))"

fun py_eq :: "json \<Rightarrow> json \<Rightarrow> bool" where
  "py_eq (JObj a) (JObj b) = dict_eq a b"
| "py_eq x y = (x = y)"

text \<open>What a later \<open>load_hashes\<close> sees after a cycle: the exception of the cycle, or of the
  load, or the loaded value.\<close>

definition then_load :: "'t env \<Rightarrow> exn + 't frame \<Rightarrow> exn + json" where
  "then_load E r =
     (case r of
        Inl e \<Rightarrow> Inl e
      | Inr s \<Rightarrow> fst (load_hashes E (world s)))"

fun same_load :: "exn + json \<Rightarrow> exn + json \<Rightarrow> bool" where
  "same_load (Inr x) (Inr y) = py_eq x y"
| "same_load (Inl e) (Inl e') = (e = e')"
| "same_load (Inl e) (Inr y) = False"
| "same_load (Inr x) (Inl e) = False"

subsection \<open>A concrete environment\<close>

text \<open>
  For evaluating the module on concrete inputs: the text of a state file is either a JSON
  document, named by the value it denotes, or text that is not JSON; the digest function
  is a stand-in that tags the content; no mail credentials are set.
\<close>

datatype doc = Doc json | Junk

definition demo_env :: "doc env" where
  "demo_env =
     \<lparr>sha256_hexdigest = (\<lambda>bs. ''sha256:'' @ bs),
      json_dumps = Doc,
      json_loads = (\<lambda>t. case t of Doc v \<Rightarrow> Some v | Junk \<Rightarrow> None),
      EMAIL_SENDER = None,
      EMAIL_PASSWORD = None,
      EMAIL_RECEIVER = None,
      EXCLUDE_EXTENSIONS = source_EXCLUDE_EXTENSIONS,
      EXCLUDE_DIRECTORIES = source_EXCLUDE_DIRECTORIES\<rparr>"

text \<open>
  A watched folder with two readable files, a file that cannot be read, a file with an
  excluded extension and a file under an excluded directory.
\<close>

definition demo_bytes :: "string \<Rightarrow> string option" where
  "demo_bytes p =
     (if p = ''test_folder/a.txt'' then Some ''hello''
      else if p = ''test_folder/sub/b.txt'' then Some ''world''
      else if p = ''test_folder/cache.tmp'' then Some ''x''
      else if p = ''test_folder/.git/config'' then Some ''y''
      else None)"

definition demo_file :: "doc option \<Rightarrow> doc disk_file" where
  "demo_file c = \<lparr>content = c, read_fault = None, write_fault = None\<rparr>"

definition demo_world :: "doc disk_file \<Rightarrow> doc world" where
  "demo_world hf =
     \<lparr>hash_file = hf,
      backup_file = demo_file None,
      os_walk = [(''test_folder'', [''a.txt'', ''cache.tmp'', ''locked.txt'']),
                 (''test_folder/.git'', [''config'']),
                 (''test_folder/sub'', [''b.txt''])],
      file_bytes = demo_bytes,
      smtp_ok = (\<lambda>p c. False),
      trace = []\<rparr>"

text \<open>The snapshot of that folder, and the state file that holds it.\<close>

definition demo_snapshot :: "(string \<times> string) list" where
  "demo_snapshot =
     [(''test_folder/a.txt'', ''sha256:hello''), (''test_folder/sub/b.txt'', ''sha256:world'')]"

definition demo_state :: "doc disk_file" where
  "demo_state = demo_file (Some (Doc (dict_json demo_snapshot)))"

text \<open>An older snapshot of the folder: \<open>a.txt\<close> had another content, \<open>sub/b.txt\<close> did
  not exist yet, and \<open>gone.txt\<close> still existed.\<close>

definition demo_old :: "(string \<times> json) list" where
  "demo_old =
     [(''test_folder/a.txt'', JStr ''sha256:hallo''), (''test_folder/gone.txt'', JStr ''sha256:bye'')]"

definition demo_old_state :: "doc disk_file" where
  "demo_old_state = demo_file (Some (Doc (JObj demo_old)))"

text \<open>
  The module has no restore operation; recovery after a failed save is the operator copying
  the backup over the state file. \<open>restore_from_backup\<close> is that step.
\<close>

definition restore_from_backup :: "'t world \<Rightarrow> 't world" where
  "restore_from_backup w =
     w\<lparr>hash_file := (hash_file w)\<lparr>content := content (backup_file w)\<rparr>\<rparr>"

text \<open>The files a cycle opened for writing, when the world it started in had an empty
  trace; the exception when the cycle raised.\<close>

definition files_written :: "exn + 't frame \<Rightarrow> exn + file_id list" where
  "files_written r =
     (case r of
        Inl e \<Rightarrow> Inl e
      | Inr s \<Rightarrow> Inr (opened (trace (world s))))"

text \<open>The text of the state file after a cycle (\<open>None\<close> when there is no state file);
  the exception when the cycle raised.\<close>

definition state_after :: "exn + 't frame \<Rightarrow> exn + 't option" where
  "state_after r =
     (case r of
        Inl e \<Rightarrow> Inl e
      | Inr s \<Rightarrow> Inr (content (hash_file (world s))))"

text \<open>The exception a run ended with, if it raised.\<close>

definition raised :: "exn + 'a \<Rightarrow> exn option" where
  "raised r = (case r of Inl e \<Rightarrow> Some e | Inr x \<Rightarrow> None)"

text \<open>A state file whose next write fails after truncation, and a world whose backup
  cannot be written.\<close>

definition demo_failing_state :: "doc disk_file" where
  "demo_failing_state =
     \<lparr>content = Some (Doc (JObj demo_old)), read_fault = None,
      write_fault = Some (WriteFails Junk)\<rparr>"

definition demo_world_no_backup :: "doc world" where
  "demo_world_no_backup =
     (demo_world demo_old_state)
       \<lparr>backup_file := \<lparr>content = None, read_fault = None, write_fault = Some OpenFails\<rparr>\<rparr>"

text \<open>An empty watched folder, with a state file that is not JSON.\<close>

definition demo_empty_folder :: "doc world" where
  "demo_empty_folder = (demo_world (demo_file (Some Junk)))\<lparr>os_walk := []\<rparr>"

subsection \<open>Notions the proofs are organised with\<close>

text \<open>\<open>quiet w w'\<close>: \<open>w'\<close> is \<open>w\<close> with more effects in the trace, none of which opens a
  file for writing.\<close>

definition quiet :: "'t world \<Rightarrow> 't world \<Rightarrow> bool" where
  "quiet w w' = (\<exists>evs. w' = w\<lparr>trace := trace w @ evs\<rparr> \<and> opened evs = [])"

text \<open>The digest \<open>calculate_file_hash\<close> returns for a path, when it returns one that
  counts as true at line 132.\<close>

definition digest :: "'t env \<Rightarrow> 't world \<Rightarrow> string \<Rightarrow> string option" where
  "digest E w p =
     (case file_bytes w p of
        None \<Rightarrow> None
      | Some bs \<Rightarrow> if sha256_hexdigest E bs = [] then None else Some (sha256_hexdigest E bs))"

text \<open>The invariant of the two loops of \<open>check_folder\<close> when the loaded value is the
  dict \<open>hs\<close> and the cycle started in the world \<open>w\<close>.\<close>

definition scan_inv :: "'t env \<Rightarrow> 't world \<Rightarrow> (string \<times> json) list \<Rightarrow> 't frame \<Rightarrow> bool" where
  "scan_inv E w hs s =
     (hashes s = JObj hs \<and> quiet w (world s) \<and> deleted_files s = [] \<and>
      (\<forall>p h. map_of (current_files s) p = Some h \<longrightarrow>
         digest E w p = Some h \<and> (p, classify hs p h) \<in> set (branch_taken s)) \<and>
      (\<forall>p c. (p, c) \<in> set (branch_taken s) \<longrightarrow>
         (\<exists>h. map_of (current_files s) p = Some h \<and> c = classify hs p h)) \<and>
      (changes_detected s \<longleftrightarrow> (\<exists>p c. (p, c) \<in> set (branch_taken s) \<and> c \<noteq> Unchanged)))"

text \<open>The paths a walk hashes: not under an excluded root, not with an excluded
  extension, and with a digest.\<close>

definition scanned :: "'t env \<Rightarrow> 't world \<Rightarrow> (string \<times> string list) list \<Rightarrow> string set" where
  "scanned E w walk =
     (\<Union>(root, files) \<in> set walk.
        if dir_excluded E root then {}
        else os_path_join root `
               {f \<in> set files. \<not> ext_excluded E f \<and> digest E w (os_path_join root f) \<noteq> None})"

text \<open>The paths a walk tries to hash and cannot read.\<close>

definition unreadable :: "'t env \<Rightarrow> 't world \<Rightarrow> (string \<times> string list) list \<Rightarrow> string set" where
  "unreadable E w walk =
     (\<Union>(root, files) \<in> set walk.
        if dir_excluded E root then {}
        else os_path_join root `
               {f \<in> set files. \<not> ext_excluded E f \<and> file_bytes w (os_path_join root f) = None})"

text \<open>The inverse of \<open>segments\<close>: \<^verbatim>\<open>'/'.join(segs)\<close>.\<close>

fun join_segments :: "string list \<Rightarrow> string" where
  "join_segments [] = []"
| "join_segments [seg] = seg"
| "join_segments (seg # seg' # segs) = seg @ CHR ''/'' # join_segments (seg' # segs)"

text \<open>The directory part of the path \<open>os_path_join\<close> builds: the root, with the
  separator the join puts after it.\<close>

definition dir_part :: "string \<Rightarrow> string" where
  "dir_part root = (if root = [] \<or> suffix ''/'' root then root else root @ ''/'')"

section \<open>Properties\<close>

subsection \<open>The read loop, the trace\<close>

lemma read_chunks_all: "read_chunks rest fed = fed @ rest"
proof (induction rest fed rule: read_chunks.induct)
  case (1 rest fed)
  show ?case
  proof (cases "rest = []")
    case True
    then show ?thesis by (subst read_chunks.simps) simp
  next
    case False
    then have ne: "take 4096 rest \<noteq> []" by simp
    have "read_chunks rest fed = read_chunks (drop 4096 rest) (fed @ take 4096 rest)"
      using ne by (subst read_chunks.simps) (simp add: Let_def)
    also have "\<dots> = (fed @ take 4096 rest) @ drop 4096 rest"
      using ne by (intro "1.IH") simp_all
    finally show ?thesis by simp
  qed
qed

lemma calculate_file_hash_result:
  "calculate_file_hash E p w =
     (map_option (sha256_hexdigest E) (file_bytes w p),
      if file_bytes w p = None then logging ERROR (ErrorHashing p) w else w)"
  by (simp add: calculate_file_hash_def read_chunks_all split: option.splits)

lemma opened_append: "opened (a @ b) = opened a @ opened b"
  by (induction a rule: opened.induct) simp_all

lemma opens_append: "opens f (a @ b) = opens f a + opens f b"
  by (simp add: opens_def)

lemma quiet_refl: "quiet w w"
  by (simp add: quiet_def exI [of _ "[]"])

lemma quiet_trans: "quiet a b \<Longrightarrow> quiet b c \<Longrightarrow> quiet a c"
  unfolding quiet_def
proof (elim exE conjE)
  fix e1 e2
  assume b: "b = a\<lparr>trace := trace a @ e1\<rparr>" and c: "c = b\<lparr>trace := trace b @ e2\<rparr>"
    and o: "opened e1 = []" "opened e2 = []"
  have "c = a\<lparr>trace := trace a @ (e1 @ e2)\<rparr>" using b c by simp
  moreover have "opened (e1 @ e2) = []" using o by (simp add: opened_append)
  ultimately show "\<exists>evs. c = a\<lparr>trace := trace a @ evs\<rparr> \<and> opened evs = []" by blast
qed

lemma quiet_fields:
  assumes "quiet w w'"
  shows "hash_file w' = hash_file w" "backup_file w' = backup_file w" "os_walk w' = os_walk w"
    "file_bytes w' = file_bytes w" "smtp_ok w' = smtp_ok w"
    "set (trace w) \<subseteq> set (trace w')" "opened (trace w') = opened (trace w)"
  using assms by (auto simp: quiet_def opened_append)

lemma quiet_logging: "quiet w (logging l m w)"
  by (simp add: quiet_def logging_def emit_def exI [of _ "[Log l m]"])

lemma quiet_print: "quiet w (print m w)"
  by (simp add: quiet_def print_def emit_def exI [of _ "[Print m]"])

lemma quiet_send_email_alert: "quiet w (send_email_alert E p c w)"
proof -
  have "quiet w (logging INFO (EmailAlertSent p c) (emit (Sendmail p c) w))"
    by (simp add: quiet_def logging_def emit_def
          exI [of _ "[Sendmail p c, Log INFO (EmailAlertSent p c)]"])
  then show ?thesis
    by (simp add: send_email_alert_def quiet_logging)
qed

lemma quiet_alert: "quiet w (send_email_alert E p c (logging l m (print m' w)))"
  by (blast intro: quiet_trans quiet_print quiet_logging quiet_send_email_alert)

subsection \<open>One file, and the two loops\<close>

lemma digest_quiet: "quiet w w' \<Longrightarrow> digest E w' p = digest E w p"
  by (simp add: digest_def quiet_fields)

lemma check_file_dict:
  fixes root :: string and fl :: string
  assumes hs: "hashes s = JObj hs"
  defines "p \<equiv> os_path_join root fl"
  shows "\<exists>s'. check_file E root fl s = Inr s' \<and> hashes s' = hashes s \<and>
           deleted_files s' = deleted_files s \<and> quiet (world s) (world s') \<and>
           (if ext_excluded E fl then s' = s
            else case digest E (world s) p of
                   None \<Rightarrow> current_files s' = current_files s \<and>
                           branch_taken s' = branch_taken s \<and>
                           changes_detected s' = changes_detected s \<and>
                           file_count s' = file_count s \<and>
                           (file_bytes (world s) p = None \<longrightarrow>
                              Log ERROR (ErrorHashing p) \<in> set (trace (world s')))
                 | Some h \<Rightarrow> current_files s' = AList.update p h (current_files s) \<and>
                             branch_taken s' = branch_taken s @ [(p, classify hs p h)] \<and>
                             changes_detected s' =
                               (changes_detected s \<or> classify hs p h \<noteq> Unchanged) \<and>
                             file_count s' = Suc (file_count s))"
proof (cases "ext_excluded E fl")
  case True
  then show ?thesis
    by (simp add: check_file_def ext_excluded_def quiet_refl)
next
  case nx: False
  then have nx': "\<not> (\<exists>ext \<in> set (EXCLUDE_EXTENSIONS E). suffix ext fl)"
    by (simp add: ext_excluded_def)
  show ?thesis
  proof (cases "file_bytes (world s) p")
    case None
    then have "check_file E root fl s = Inr (s\<lparr>world := logging ERROR (ErrorHashing p) (world s)\<rparr>)"
      using nx' by (simp add: check_file_def calculate_file_hash_result p_def Let_def)
    moreover have "Log ERROR (ErrorHashing p) \<in> set (trace (logging ERROR (ErrorHashing p) (world s)))"
      by (simp add: logging_def emit_def)
    ultimately show ?thesis
      using nx None by (simp add: digest_def quiet_logging)
  next
    case (Some bs)
    show ?thesis
    proof (cases "sha256_hexdigest E bs = []")
      case True
      then have "check_file E root fl s = Inr (s\<lparr>world := world s\<rparr>)"
        using nx' Some by (simp add: check_file_def calculate_file_hash_result p_def Let_def)
      then show ?thesis
        using nx Some True by (simp add: digest_def quiet_refl)
    next
      case False
      define h where "h = sha256_hexdigest E bs"
      have dg: "digest E (world s) p = Some h"
        using Some False by (simp add: digest_def h_def)
      have hne: "h \<noteq> []" using False by (simp add: h_def)
      show ?thesis
      proof (cases "p \<in> set (map fst hs)")
        case inh: True
        then obtain v where v: "map_of hs p = Some v"
          by (metis map_of_eq_None_iff not_Some_eq set_map)
        show ?thesis
        proof (cases "v = JStr h")
          case True
          then have cl: "classify hs p h = Unchanged"
            using inh v by (simp add: classify_def)
          have "check_file E root fl s =
                 Inr (s\<lparr>current_files := AList.update p h (current_files s),
                        file_count := file_count s + 1,
                        branch_taken := branch_taken s @ [(p, Unchanged)]\<rparr>)"
            using nx' Some hne inh v True hs
            by (simp add: check_file_def calculate_file_hash_result p_def [symmetric] Let_def h_def [symmetric])
          then show ?thesis
            using nx dg cl hs by (simp add: quiet_refl)
        next
          case False
          then have cl: "classify hs p h = Modified"
            using inh v by (simp add: classify_def)
          have "check_file E root fl s =
                 Inr (s\<lparr>current_files := AList.update p h (current_files s),
                        file_count := file_count s + 1,
                        changes_detected := True,
                        branch_taken := branch_taken s @ [(p, Modified)],
                        world := send_email_alert E p ''Modified''
                                   (logging WARNING (FileChanged p) (print (FileChanged p) (world s)))\<rparr>)"
            using nx' Some hne inh v False hs
            by (simp add: check_file_def calculate_file_hash_result p_def [symmetric] Let_def h_def [symmetric])
          then show ?thesis
            using nx dg cl hs by (simp add: quiet_alert)
        qed
      next
        case ninh: False
        then have cl: "classify hs p h = Added"
          by (simp add: classify_def)
        have "check_file E root fl s =
               Inr (s\<lparr>current_files := AList.update p h (current_files s),
                      file_count := file_count s + 1,
                      changes_detected := True,
                      branch_taken := branch_taken s @ [(p, Added)],
                      world := send_email_alert E p ''New File Added''
                                 (logging INFO (NewFileDetected p) (print (NewFileDetected p) (world s)))\<rparr>)"
          using nx' Some hne ninh hs
          by (simp add: check_file_def calculate_file_hash_result p_def [symmetric] Let_def h_def [symmetric])
        then show ?thesis
          using nx dg cl hs by (simp add: quiet_alert)
      qed
    qed
  qed
qed


lemma scan_invD:
  assumes "scan_inv E w hs s"
  shows "hashes s = JObj hs" "quiet w (world s)" "deleted_files s = []"
    "\<And>q h. map_of (current_files s) q = Some h \<Longrightarrow> digest E w q = Some h"
    "\<And>q h. map_of (current_files s) q = Some h \<Longrightarrow> (q, classify hs q h) \<in> set (branch_taken s)"
    "\<And>q c. (q, c) \<in> set (branch_taken s) \<Longrightarrow>
               \<exists>h. map_of (current_files s) q = Some h \<and> c = classify hs q h"
    "changes_detected s \<longleftrightarrow> (\<exists>q c. (q, c) \<in> set (branch_taken s) \<and> c \<noteq> Unchanged)"
proof -
  note a = assms [unfolded scan_inv_def]
  show "hashes s = JObj hs" using a by (elim conjE)
  show "quiet w (world s)" using a by (elim conjE)
  show "deleted_files s = []" using a by (elim conjE)
  show "\<And>q h. map_of (current_files s) q = Some h \<Longrightarrow> digest E w q = Some h"
    using a by (elim conjE) (erule allE, erule allE, erule impE, assumption, erule conjE, assumption)
  show "\<And>q h. map_of (current_files s) q = Some h \<Longrightarrow> (q, classify hs q h) \<in> set (branch_taken s)"
    using a by (elim conjE) (erule allE, erule allE, erule impE, assumption, erule conjE, assumption)
  show "\<And>q c. (q, c) \<in> set (branch_taken s) \<Longrightarrow>
               \<exists>h. map_of (current_files s) q = Some h \<and> c = classify hs q h"
    using a by (elim conjE) (erule thin_rl, erule allE, erule allE, erule impE, assumption, assumption)
  show "changes_detected s \<longleftrightarrow> (\<exists>q c. (q, c) \<in> set (branch_taken s) \<and> c \<noteq> Unchanged)"
    using a by (elim conjE)
qed


lemma check_file_total:
  "hashes s = JObj hs \<Longrightarrow> \<exists>s'. check_file E root fl s = Inr s'"
  using check_file_dict [of s hs E root fl] by blast

lemma check_file_frame:
  assumes "hashes s = JObj hs" "check_file E root fl s = Inr s'"
  shows "hashes s' = JObj hs" "deleted_files s' = deleted_files s" "quiet (world s) (world s')"
  using check_file_dict [OF assms(1), of E root fl] assms by auto

lemma check_file_skip:
  assumes "hashes s = JObj hs" "check_file E root fl s = Inr s'" "ext_excluded E fl"
  shows "s' = s"
  using check_file_dict [OF assms(1), of E root fl] assms by auto

lemma check_file_nodigest:
  assumes "hashes s = JObj hs" "check_file E root fl s = Inr s'" "\<not> ext_excluded E fl"
    "digest E (world s) (os_path_join root fl) = None"
  shows "current_files s' = current_files s" "branch_taken s' = branch_taken s"
    "changes_detected s' = changes_detected s" "file_count s' = file_count s"
    "file_bytes (world s) (os_path_join root fl) = None \<Longrightarrow>
       Log ERROR (ErrorHashing (os_path_join root fl)) \<in> set (trace (world s'))"
  using check_file_dict [OF assms(1), of E root fl] assms by auto

lemma check_file_hashed:
  assumes "hashes s = JObj hs" "check_file E root fl s = Inr s'" "\<not> ext_excluded E fl"
    "digest E (world s) (os_path_join root fl) = Some h"
  shows "current_files s' = AList.update (os_path_join root fl) h (current_files s)"
    "branch_taken s' = branch_taken s @ [(os_path_join root fl, classify hs (os_path_join root fl) h)]"
    "changes_detected s' = (changes_detected s \<or> classify hs (os_path_join root fl) h \<noteq> Unchanged)"
    "file_count s' = Suc (file_count s)"
  using check_file_dict [OF assms(1), of E root fl] assms by auto


lemma scan_invI:
  assumes "hashes s = JObj hs" "quiet w (world s)" "deleted_files s = []"
    "\<And>q h. map_of (current_files s) q = Some h \<Longrightarrow>
        digest E w q = Some h \<and> (q, classify hs q h) \<in> set (branch_taken s)"
    "\<And>q c. (q, c) \<in> set (branch_taken s) \<Longrightarrow>
               \<exists>h. map_of (current_files s) q = Some h \<and> c = classify hs q h"
    "changes_detected s \<longleftrightarrow> (\<exists>q c. (q, c) \<in> set (branch_taken s) \<and> c \<noteq> Unchanged)"
  shows "scan_inv E w hs s"
  unfolding scan_inv_def
  by (intro conjI allI impI assms(1) assms(2) assms(3) assms(6))
     (use assms(4) assms(5) in blast)+

lemma check_file_inv:
  assumes inv: "scan_inv E w hs s" and run: "check_file E root fl s = Inr s'"
  shows "scan_inv E w hs s'"
proof -
  define p where "p = os_path_join root fl"
  note hs = scan_invD(1) [OF inv] and q = scan_invD(2) [OF inv] and del = scan_invD(3) [OF inv]
    and c1a = scan_invD(4) [OF inv] and c1b = scan_invD(5) [OF inv]
    and c2 = scan_invD(6) [OF inv] and c3 = scan_invD(7) [OF inv]
  note fr = check_file_frame [OF hs run]
  have qq: "quiet w (world s')" using q fr(3) by (rule quiet_trans)
  have d': "deleted_files s' = []" using fr(2) del by simp
  show ?thesis
  proof (cases "ext_excluded E fl")
    case True
    with check_file_skip [OF hs run] inv show ?thesis by simp
  next
    case nx: False
    show ?thesis
    proof (cases "digest E (world s) (os_path_join root fl)")
      case None
      note e = check_file_nodigest [OF hs run nx None]
      show ?thesis
        by (rule scan_invI [OF fr(1) qq d'])
           (simp_all add: e(1) e(2) e(3) c1a c1b c2 c3)
    next
      case (Some h)
      note e = check_file_hashed [OF hs run nx Some]
      have cur: "current_files s' = AList.update p h (current_files s)"
        and bt: "branch_taken s' = branch_taken s @ [(p, classify hs p h)]"
        and cd: "changes_detected s' = (changes_detected s \<or> classify hs p h \<noteq> Unchanged)"
        using e by (simp_all add: p_def)
      have dg: "digest E w p = Some h"
        using Some digest_quiet [OF q, of E p] by (simp add: p_def)
      have m: "map_of (current_files s') = (map_of (current_files s))(p \<mapsto> h)"
        by (simp add: cur update_conv')
      have n1: "digest E w q = Some h' \<and> (q, classify hs q h') \<in> set (branch_taken s')"
        if "map_of (current_files s') q = Some h'" for q h'
      proof (cases "q = p")
        case True
        with that have "h' = h" by (simp add: m)
        with True dg show ?thesis by (simp add: bt)
      next
        case False
        with that have "map_of (current_files s) q = Some h'" by (simp add: m)
        with c1a c1b show ?thesis by (simp add: bt)
      qed
      have n2: "\<exists>h'. map_of (current_files s') q = Some h' \<and> c = classify hs q h'"
        if "(q, c) \<in> set (branch_taken s')" for q c
      proof (cases "(q, c) \<in> set (branch_taken s)")
        case True
        from c2 [OF True] obtain h0 where h0: "map_of (current_files s) q = Some h0" "c = classify hs q h0"
          by blast
        show ?thesis
        proof (cases "q = p")
          case True
          with c1a [OF h0(1)] dg have "h0 = h" by simp
          with True h0 show ?thesis by (simp add: m)
        next
          case False
          with h0 show ?thesis by (simp add: m)
        qed
      next
        case False
        with that have "q = p" "c = classify hs p h" by (simp_all add: bt)
        then show ?thesis by (simp add: m)
      qed
      have n3: "changes_detected s' \<longleftrightarrow> (\<exists>q c. (q, c) \<in> set (branch_taken s') \<and> c \<noteq> Unchanged)"
      proof
        assume "changes_detected s'"
        then consider "changes_detected s" | "classify hs p h \<noteq> Unchanged" by (auto simp: cd)
        then show "\<exists>q c. (q, c) \<in> set (branch_taken s') \<and> c \<noteq> Unchanged"
        proof cases
          case 1
          with c3 obtain q c where "(q, c) \<in> set (branch_taken s)" "c \<noteq> Unchanged" by blast
          then show ?thesis by (auto simp: bt)
        next
          case 2
          then show ?thesis by (auto simp: bt)
        qed
      next
        assume "\<exists>q c. (q, c) \<in> set (branch_taken s') \<and> c \<noteq> Unchanged"
        then obtain q c where qc: "(q, c) \<in> set (branch_taken s')" "c \<noteq> Unchanged" by blast
        then consider "(q, c) \<in> set (branch_taken s)" | "c = classify hs p h" by (auto simp: bt)
        then show "changes_detected s'"
        proof cases
          case 1
          with qc c3 show ?thesis by (auto simp: cd)
        next
          case 2
          with qc show ?thesis by (simp add: cd)
        qed
      qed
      show ?thesis
        by (rule scan_invI [OF fr(1) qq d' n1 n2 n3])
    qed
  qed
qed

lemma check_files_dict:
  assumes "hashes s = JObj hs"
  shows "\<exists>s'. check_files E root files s = Inr s' \<and> hashes s' = JObj hs \<and>
           deleted_files s' = deleted_files s \<and> quiet (world s) (world s') \<and>
           (scan_inv E w hs s \<longrightarrow> scan_inv E w hs s') \<and>
           new_keys s' = new_keys s \<union>
             {os_path_join root f | f. f \<in> set files \<and> \<not> ext_excluded E f \<and>
                digest E (world s) (os_path_join root f) \<noteq> None} \<and>
           (\<forall>f \<in> set files. \<not> ext_excluded E f \<and> file_bytes (world s) (os_path_join root f) = None \<longrightarrow>
              Log ERROR (ErrorHashing (os_path_join root f)) \<in> set (trace (world s')))"
  using assms
proof (induction files arbitrary: s)
  case Nil
  then show ?case by (simp add: quiet_refl)
next
  case (Cons f files)
  from check_file_total [OF Cons.prems, of E root f]
  obtain s1 where run1: "check_file E root f s = Inr s1" by blast
  note fr = check_file_frame [OF Cons.prems run1]
  from Cons.IH [OF fr(1)]
  obtain s' where run': "check_files E root files s1 = Inr s'"
    and h': "hashes s' = JObj hs" and d': "deleted_files s' = deleted_files s1"
    and q': "quiet (world s1) (world s')"
    and inv': "scan_inv E w hs s1 \<longrightarrow> scan_inv E w hs s'"
    and keys': "new_keys s' = new_keys s1 \<union>
             {os_path_join root g | g. g \<in> set files \<and> \<not> ext_excluded E g \<and>
                digest E (world s1) (os_path_join root g) \<noteq> None}"
    and logs': "\<forall>g \<in> set files. \<not> ext_excluded E g \<and> file_bytes (world s1) (os_path_join root g) = None \<longrightarrow>
              Log ERROR (ErrorHashing (os_path_join root g)) \<in> set (trace (world s'))"
    by blast
  have run: "check_files E root (f # files) s = Inr s'"
    using run1 run' by simp
  have q: "quiet (world s) (world s')" using fr(3) q' by (rule quiet_trans)
  have dq: "digest E (world s1) = digest E (world s)"
    using digest_quiet [OF fr(3)] by (rule ext)
  have fb: "file_bytes (world s1) = file_bytes (world s)"
    using quiet_fields(4) [OF fr(3)] .
  have k1: "new_keys s1 = new_keys s \<union>
      (if \<not> ext_excluded E f \<and> digest E (world s) (os_path_join root f) \<noteq> None
       then {os_path_join root f} else {})"
  proof (cases "ext_excluded E f")
    case True
    with check_file_skip [OF Cons.prems run1] show ?thesis by simp
  next
    case nx: False
    show ?thesis
    proof (cases "digest E (world s) (os_path_join root f)")
      case None
      with check_file_nodigest(1) [OF Cons.prems run1 nx None] nx show ?thesis
        by (simp add: new_keys_def)
    next
      case (Some h)
      with check_file_hashed(1) [OF Cons.prems run1 nx Some] nx show ?thesis
        by (simp add: new_keys_def dom_update)
    qed
  qed
  have keys: "new_keys s' = new_keys s \<union>
             {os_path_join root g | g. g \<in> set (f # files) \<and> \<not> ext_excluded E g \<and>
                digest E (world s) (os_path_join root g) \<noteq> None}"
    unfolding keys' k1 dq by auto
  have l1: "Log ERROR (ErrorHashing (os_path_join root f)) \<in> set (trace (world s'))"
    if "\<not> ext_excluded E f" "file_bytes (world s) (os_path_join root f) = None"
  proof -
    have "digest E (world s) (os_path_join root f) = None"
      using that(2) by (simp add: digest_def)
    from check_file_nodigest(5) [OF Cons.prems run1 that(1) this that(2)]
    show ?thesis using quiet_fields(6) [OF q'] by blast
  qed
  have logs: "\<forall>g \<in> set (f # files). \<not> ext_excluded E g \<and> file_bytes (world s) (os_path_join root g) = None \<longrightarrow>
              Log ERROR (ErrorHashing (os_path_join root g)) \<in> set (trace (world s'))"
    using l1 logs' by (simp add: fb)
  have inv: "scan_inv E w hs s \<longrightarrow> scan_inv E w hs s'"
    using check_file_inv [OF _ run1] inv' by blast
  show ?case
    using run h' d' fr(2) q inv keys logs by simp
qed

lemma scanned_Nil: "scanned E w [] = {}"
  by (simp add: scanned_def)

lemma scanned_Cons:
  "scanned E w ((root, files) # rest) =
     (if dir_excluded E root then {}
      else {os_path_join root f | f. f \<in> set files \<and> \<not> ext_excluded E f \<and>
              digest E w (os_path_join root f) \<noteq> None}) \<union> scanned E w rest"
  by (simp add: scanned_def image_Collect)

lemma scanned_quiet:
  assumes "quiet w w'"
  shows "scanned E w' walk = scanned E w walk"
proof -
  have d: "digest E w' = digest E w"
    using digest_quiet [OF assms] by (rule ext)
  show ?thesis unfolding scanned_def by (subst d) (rule refl)
qed

lemma unreadable_Nil: "unreadable E w [] = {}"
  by (simp add: unreadable_def)

lemma unreadable_Cons:
  "unreadable E w ((root, files) # rest) =
     (if dir_excluded E root then {}
      else {os_path_join root f | f. f \<in> set files \<and> \<not> ext_excluded E f \<and>
              file_bytes w (os_path_join root f) = None}) \<union> unreadable E w rest"
  by (simp add: unreadable_def image_Collect)

lemma unreadable_quiet:
  assumes "quiet w w'"
  shows "unreadable E w' walk = unreadable E w walk"
  unfolding unreadable_def by (subst quiet_fields(4) [OF assms]) (rule refl)

lemma check_roots_dict:
  assumes "hashes s = JObj hs"
  shows "\<exists>s'. check_roots E walk s = Inr s' \<and> hashes s' = JObj hs \<and>
           deleted_files s' = deleted_files s \<and> quiet (world s) (world s') \<and>
           (scan_inv E w hs s \<longrightarrow> scan_inv E w hs s') \<and>
           new_keys s' = new_keys s \<union> scanned E (world s) walk \<and>
           (\<forall>p \<in> unreadable E (world s) walk.
              Log ERROR (ErrorHashing p) \<in> set (trace (world s')))"
  using assms
proof (induction walk arbitrary: s)
  case Nil
  then show ?case by (simp add: quiet_refl scanned_Nil unreadable_Nil)
next
  case (Cons rf rest)
  obtain root files where rf: "rf = (root, files)" by (cases rf)
  show ?case
  proof (cases "dir_excluded E root")
    case True
    then have step: "check_roots E ((root, files) # rest) s = check_roots E rest s"
      by (simp add: dir_excluded_def)
    from Cons.IH [OF Cons.prems] True show ?thesis
      unfolding rf step scanned_Cons unreadable_Cons by simp
  next
    case False
    from check_files_dict [OF Cons.prems, of E root files w]
    obtain s1 where run1: "check_files E root files s = Inr s1"
      and h1: "hashes s1 = JObj hs" and d1: "deleted_files s1 = deleted_files s"
      and q1: "quiet (world s) (world s1)"
      and inv1: "scan_inv E w hs s \<longrightarrow> scan_inv E w hs s1"
      and keys1: "new_keys s1 = new_keys s \<union>
             {os_path_join root f | f. f \<in> set files \<and> \<not> ext_excluded E f \<and>
                digest E (world s) (os_path_join root f) \<noteq> None}"
      and logs1: "\<forall>f \<in> set files. \<not> ext_excluded E f \<and> file_bytes (world s) (os_path_join root f) = None \<longrightarrow>
              Log ERROR (ErrorHashing (os_path_join root f)) \<in> set (trace (world s1))"
      by blast
    have step: "check_roots E ((root, files) # rest) s = check_roots E rest s1"
      using False run1 by (simp add: dir_excluded_def)
    from Cons.IH [OF h1]
    obtain s' where run': "check_roots E rest s1 = Inr s'"
      and h': "hashes s' = JObj hs" and d': "deleted_files s' = deleted_files s1"
      and q': "quiet (world s1) (world s')"
      and inv': "scan_inv E w hs s1 \<longrightarrow> scan_inv E w hs s'"
      and keys': "new_keys s' = new_keys s1 \<union> scanned E (world s1) rest"
      and logs': "\<forall>p \<in> unreadable E (world s1) rest.
              Log ERROR (ErrorHashing p) \<in> set (trace (world s'))"
      by blast
    have q: "quiet (world s) (world s')" using q1 q' by (rule quiet_trans)
    have keys: "new_keys s' = new_keys s \<union> scanned E (world s) ((root, files) # rest)"
      unfolding keys' keys1 scanned_Cons scanned_quiet [OF q1] using False by auto
    have logs: "\<forall>p \<in> unreadable E (world s) ((root, files) # rest).
              Log ERROR (ErrorHashing p) \<in> set (trace (world s'))"
      unfolding unreadable_Cons
      using False logs1 logs' quiet_fields(6) [OF q'] unreadable_quiet [OF q1, of E rest]
      by auto
    show ?thesis
      unfolding rf step using run' h' d' d1 q inv1 inv' keys logs by simp
  qed
qed

subsection \<open>The scan of a pass that loaded a dict\<close>

lemma load_hashes_quiet: "quiet w (snd (load_hashes E w))"
  by (simp add: load_hashes_def quiet_refl quiet_logging split: sum.splits option.splits)

lemma fold_report_deleted:
  "\<exists>s'. fold (report_deleted E) dels s = s' \<and> hashes s' = hashes s \<and>
         current_files s' = current_files s \<and> branch_taken s' = branch_taken s \<and>
         deleted_files s' = deleted_files s \<and> file_count s' = file_count s \<and>
         quiet (world s) (world s') \<and>
         changes_detected s' = (changes_detected s \<or> dels \<noteq> [])"
proof (induction dels arbitrary: s)
  case Nil
  show ?case by (simp add: quiet_refl)
next
  case (Cons d dels)
  define s1 where "s1 = report_deleted E d s"
  have f1: "hashes s1 = hashes s" "current_files s1 = current_files s"
    "branch_taken s1 = branch_taken s" "deleted_files s1 = deleted_files s"
    "file_count s1 = file_count s" "changes_detected s1"
    by (simp_all add: s1_def report_deleted_def)
  have q1: "quiet (world s) (world s1)"
    by (simp add: s1_def report_deleted_def quiet_alert)
  from Cons.IH [of s1] q1 show ?case
    by (auto simp: f1 s1_def [symmetric] intro: quiet_trans)
qed

lemma init_inv:
  "scan_inv E w hs \<lparr>hashes = JObj hs, changes_detected = False, file_count = 0,
      current_files = [], branch_taken = [], deleted_files = [], world = w\<rparr>"
  by (simp add: scan_inv_def quiet_refl)

lemma scan_dict:
  assumes load: "load_hashes E w = (Inr (JObj hs), w0)"
  obtains s where "check_folder_scan E w = Inr s" "hashes s = JObj hs" "quiet w (world s)"
    "new_keys s = scanned E w (os_walk w)"
    "\<And>p h. map_of (current_files s) p = Some h \<Longrightarrow> digest E w p = Some h"
    "\<And>p h. map_of (current_files s) p = Some h \<Longrightarrow> (p, classify hs p h) \<in> set (branch_taken s)"
    "\<And>p c. (p, c) \<in> set (branch_taken s) \<Longrightarrow>
        \<exists>h. map_of (current_files s) p = Some h \<and> c = classify hs p h"
    "deleted_files s = filter (\<lambda>k. k \<notin> new_keys s) (remdups (map fst hs))"
    "changes_detected s \<longleftrightarrow>
       (\<exists>p c. (p, c) \<in> set (branch_taken s) \<and> c \<noteq> Unchanged) \<or> deleted_files s \<noteq> []"
    "\<And>p. p \<in> unreadable E w (os_walk w) \<Longrightarrow>
        Log ERROR (ErrorHashing p) \<in> set (trace (world s))"
proof -
  have q0: "quiet w w0" using load_hashes_quiet [of w E] load by simp
  define s0 :: "'a frame" where "s0 = \<lparr>hashes = JObj hs, changes_detected = False, file_count = 0,
      current_files = [], branch_taken = [], deleted_files = [], world = w0\<rparr>"
  have h0: "hashes s0 = JObj hs" and w0: "world s0 = w0" and k0: "new_keys s0 = {}"
    and d0: "deleted_files s0 = []"
    by (simp_all add: s0_def new_keys_def)
  have inv0: "scan_inv E w0 hs s0" unfolding s0_def by (rule init_inv)
  from check_roots_dict [OF h0, of E "os_walk w0" w0] inv0
  obtain s1 where run1: "check_roots E (os_walk w0) s0 = Inr s1"
    and h1: "hashes s1 = JObj hs" and d1: "deleted_files s1 = deleted_files s0"
    and q1: "quiet (world s0) (world s1)"
    and inv1: "scan_inv E w0 hs s1"
    and keys1: "new_keys s1 = new_keys s0 \<union> scanned E (world s0) (os_walk w0)"
    and logs1: "\<forall>p \<in> unreadable E (world s0) (os_walk w0).
              Log ERROR (ErrorHashing p) \<in> set (trace (world s1))"
    by blast
  define dels where "dels = filter (\<lambda>k. k \<notin> set (map fst (current_files s1))) (remdups (map fst hs))"
  from fold_report_deleted [of E dels "s1\<lparr>deleted_files := dels\<rparr>"]
  obtain s where fold: "fold (report_deleted E) dels (s1\<lparr>deleted_files := dels\<rparr>) = s"
    and h: "hashes s = hashes s1" and cur: "current_files s = current_files s1"
    and bt: "branch_taken s = branch_taken s1" and del: "deleted_files s = dels"
    and q: "quiet (world s1) (world s)"
    and cd: "changes_detected s = (changes_detected s1 \<or> dels \<noteq> [])"
    by auto
  have run: "check_folder_scan E w = Inr s"
    using load run1 h1 fold [unfolded dels_def]
    by (simp add: check_folder_scan_def s0_def [symmetric] Let_def)
  have qw: "quiet w (world s)"
    using q0 q1 q w0 by (metis quiet_trans)
  have walk: "os_walk w0 = os_walk w" using quiet_fields(3) [OF q0] .
  have nk: "new_keys s = scanned E w (os_walk w)"
    using keys1 k0 scanned_quiet [OF q0, of E "os_walk w"] by (simp add: new_keys_def cur w0 walk)
  note i = scan_invD [OF inv1]
  have dg: "digest E w0 = digest E w" using digest_quiet [OF q0] by (rule ext)
  have logs: "Log ERROR (ErrorHashing p) \<in> set (trace (world s))"
    if "p \<in> unreadable E w (os_walk w)" for p
    using that logs1 quiet_fields(6) [OF q] unreadable_quiet [OF q0, of E "os_walk w"]
    by (auto simp: w0 walk)
  show ?thesis
  proof (rule that [OF run _ qw nk])
    show "hashes s = JObj hs" using h h1 by simp
    show "\<And>p h. map_of (current_files s) p = Some h \<Longrightarrow> digest E w p = Some h"
      using i(4) by (simp add: cur dg)
    show "\<And>p h. map_of (current_files s) p = Some h \<Longrightarrow> (p, classify hs p h) \<in> set (branch_taken s)"
      using i(5) by (simp add: cur bt)
    show "\<And>p c. (p, c) \<in> set (branch_taken s) \<Longrightarrow>
        \<exists>h. map_of (current_files s) p = Some h \<and> c = classify hs p h"
      using i(6) by (simp add: cur bt)
    show "deleted_files s = filter (\<lambda>k. k \<notin> new_keys s) (remdups (map fst hs))"
      by (simp add: del dels_def new_keys_def cur)
    show "changes_detected s \<longleftrightarrow>
       (\<exists>p c. (p, c) \<in> set (branch_taken s) \<and> c \<noteq> Unchanged) \<or> deleted_files s \<noteq> []"
      using i(7) by (simp add: cd bt del)
    show "\<And>p. p \<in> unreadable E w (os_walk w) \<Longrightarrow>
        Log ERROR (ErrorHashing p) \<in> set (trace (world s))"
      by (rule logs)
  qed
qed

lemma check_file_hashes:
  assumes "check_file E root fl s = Inr s'"
  shows "hashes s' = hashes s"
proof (cases "\<exists>ext \<in> set (EXCLUDE_EXTENSIONS E). suffix ext fl")
  case True
  with assms show ?thesis by (simp add: check_file_def)
next
  case False
  obtain fh w1 where c: "calculate_file_hash E (os_path_join root fl) (world s) = (fh, w1)"
    by (cases "calculate_file_hash E (os_path_join root fl) (world s)")
  show ?thesis
  proof (cases fh)
    case None
    with assms False c show ?thesis by (auto simp: check_file_def Let_def)
  next
    case (Some h)
    show ?thesis
    proof (cases "h = []")
      case True
      with assms False c Some show ?thesis by (auto simp: check_file_def Let_def)
    next
      case ne: False
      show ?thesis
      proof (cases "py_in (os_path_join root fl) (hashes s)")
        case (Inl e)
        with assms False c Some ne show ?thesis by (simp add: check_file_def Let_def)
      next
        case (Inr b)
        show ?thesis
        proof (cases b)
          case True
          show ?thesis
          proof (cases "py_getitem (hashes s) (os_path_join root fl)")
            case (Inl e)
            with assms False c Some ne Inr True show ?thesis by (simp add: check_file_def Let_def)
          next
            case v: (Inr v)
            with assms False c Some ne Inr True show ?thesis
              by (cases "v = JStr h") (auto simp: check_file_def Let_def)
          qed
        next
          case False
          with assms \<open>\<not> (\<exists>ext \<in> set (EXCLUDE_EXTENSIONS E). suffix ext fl)\<close> c Some ne Inr show ?thesis
            by (auto simp: check_file_def Let_def)
        qed
      qed
    qed
  qed
qed

lemma check_files_hashes:
  "check_files E root files s = Inr s' \<Longrightarrow> hashes s' = hashes s"
proof (induction files arbitrary: s)
  case Nil
  then show ?case by simp
next
  case (Cons f files)
  then show ?case
    by (cases "check_file E root f s") (auto dest: check_file_hashes)
qed

lemma check_roots_hashes:
  "check_roots E walk s = Inr s' \<Longrightarrow> hashes s' = hashes s"
proof (induction walk arbitrary: s)
  case Nil
  then show ?case by simp
next
  case (Cons rf rest)
  obtain root files where rf: "rf = (root, files)" by (cases rf)
  show ?case
  proof (cases "\<exists>excluded \<in> set (EXCLUDE_DIRECTORIES E). sublist excluded root")
    case True
    with Cons show ?thesis by (simp add: rf)
  next
    case False
    with Cons show ?thesis
      by (cases "check_files E root files s") (auto simp: rf dest: check_files_hashes)
  qed
qed

text \<open>A cycle that completes has loaded a dict.\<close>

lemma scan_Inr_dict:
  assumes "check_folder_scan E w = Inr s"
  shows "\<exists>hs w0. load_hashes E w = (Inr (JObj hs), w0)"
proof -
  obtain r w0 where l: "load_hashes E w = (r, w0)" by (cases "load_hashes E w")
  show ?thesis
  proof (cases r)
    case (Inl e)
    with assms l show ?thesis by (simp add: check_folder_scan_def)
  next
    case (Inr h)
    define s0 :: "'a frame" where "s0 = \<lparr>hashes = h, changes_detected = False, file_count = 0,
      current_files = [], branch_taken = [], deleted_files = [], world = w0\<rparr>"
    show ?thesis
    proof (cases "check_roots E (os_walk w0) s0")
      case e: (Inl e)
      with assms l Inr show ?thesis by (simp add: check_folder_scan_def s0_def)
    next
      case s1: (Inr s1)
      have "hashes s1 = h" using check_roots_hashes [OF s1] by (simp add: s0_def)
      moreover have "\<exists>ks. py_keys (hashes s1) = Inr ks"
        using assms l Inr s1 by (cases "py_keys (hashes s1)") (simp_all add: check_folder_scan_def s0_def)
      ultimately obtain hs where "h = JObj hs" by (cases h) auto
      with l Inr show ?thesis by simp
    qed
  qed
qed

lemma check_folder_result:
  assumes "check_folder_scan E w = Inr s" "hashes s = JObj hs"
  shows "check_folder E w =
           Inr (summary (if changes_detected s \<or> set (map fst hs) \<noteq> new_keys s
                         then s\<lparr>world := save_hashes E (current_files s) (world s)\<rparr> else s))"
  using assms by (simp add: check_folder_def save_needed_def new_keys_def)

lemma check_folder_always_saving_result:
  assumes "check_folder_scan E w = Inr s"
  shows "check_folder_always_saving E w =
           Inr (summary (s\<lparr>world := save_hashes E (current_files s) (world s)\<rparr>))"
  using assms by (simp add: check_folder_always_saving_def)

lemma summary_fields:
  "hashes (summary s) = hashes s" "current_files (summary s) = current_files s"
  "branch_taken (summary s) = branch_taken s" "deleted_files (summary s) = deleted_files s"
  "changes_detected (summary s) = changes_detected s" "file_count (summary s) = file_count s"
  "quiet (world s) (world (summary s))"
  by (simp_all add: summary_def) (blast intro: quiet_trans quiet_logging quiet_print)

lemma key_iff: "k \<in> fst ` set xs \<longleftrightarrow> (\<exists>v. map_of xs k = Some v)"
  using map_of_eq_None_iff [of xs k] by (cases "map_of xs k") auto

lemma classes_of_scan:
  assumes c1: "\<And>p h. map_of (current_files s) p = Some h \<Longrightarrow> (p, classify hs p h) \<in> set (branch_taken s)"
    and c2: "\<And>p c. (p, c) \<in> set (branch_taken s) \<Longrightarrow>
        \<exists>h. map_of (current_files s) p = Some h \<and> c = classify hs p h"
  shows "paths_of c s = {p. \<exists>h. map_of (current_files s) p = Some h \<and> classify hs p h = c}"
  unfolding paths_of_def using c1 c2 by (auto dest: c2)

lemma new_keys_map_of: "new_keys s = {p. \<exists>h. map_of (current_files s) p = Some h}"
  unfolding new_keys_def by (rule set_eqI) (simp add: key_iff)

lemma classify_cases:
  "classify hs p h = Added \<longleftrightarrow> p \<notin> fst ` set hs"
  "classify hs p h = Modified \<longleftrightarrow> p \<in> fst ` set hs \<and> map_of hs p \<noteq> Some (JStr h)"
  "classify hs p h = Unchanged \<longleftrightarrow> map_of hs p = Some (JStr h)"
  unfolding classify_def by (auto simp: key_iff)


lemma old_keys_dict: "hashes s = JObj hs \<Longrightarrow> old_keys s = fst ` set hs"
  by (simp add: old_keys_def)

text \<open>The four sets of a scan of a dict, by the two snapshots alone.\<close>

lemma scan_classes:
  assumes load: "load_hashes E w = (Inr (JObj hs), w0)"
  obtains s where "check_folder_scan E w = Inr s" "hashes s = JObj hs"
    "added s = {p \<in> new_keys s. p \<notin> fst ` set hs}"
    "modified s = {p \<in> new_keys s. p \<in> fst ` set hs \<and>
                     map_of hs p \<noteq> map_option JStr (map_of (current_files s) p)}"
    "unchanged s = {p \<in> new_keys s. map_of hs p = map_option JStr (map_of (current_files s) p)}"
    "deleted s = fst ` set hs - new_keys s"
    "changes_detected s \<longleftrightarrow> added s \<union> modified s \<union> deleted s \<noteq> {}"
proof (rule scan_dict [OF load])
  fix s :: "'a frame"
  assume run: "check_folder_scan E w = Inr s"
    and h: "hashes s = JObj hs"
    and c1: "\<And>p h. map_of (current_files s) p = Some h \<Longrightarrow> (p, classify hs p h) \<in> set (branch_taken s)"
    and c2: "\<And>p c. (p, c) \<in> set (branch_taken s) \<Longrightarrow>
        \<exists>h. map_of (current_files s) p = Some h \<and> c = classify hs p h"
    and del: "deleted_files s = filter (\<lambda>k. k \<notin> new_keys s) (remdups (map fst hs))"
    and cd: "changes_detected s \<longleftrightarrow>
       (\<exists>p c. (p, c) \<in> set (branch_taken s) \<and> c \<noteq> Unchanged) \<or> deleted_files s \<noteq> []"
  have cl: "paths_of c s = {p. \<exists>h. map_of (current_files s) p = Some h \<and> classify hs p h = c}" for c
    by (rule classes_of_scan) (fact c1, fact c2)
  have a: "added s = {p \<in> new_keys s. p \<notin> fst ` set hs}"
    unfolding added_def cl new_keys_map_of by (rule set_eqI) (simp add: classify_cases)
  have m: "modified s = {p \<in> new_keys s. p \<in> fst ` set hs \<and>
                     map_of hs p \<noteq> map_option JStr (map_of (current_files s) p)}"
    unfolding modified_def cl new_keys_map_of by (rule set_eqI) (simp add: classify_cases, fastforce)
  have u: "unchanged s = {p \<in> new_keys s. map_of hs p = map_option JStr (map_of (current_files s) p)}"
    unfolding unchanged_def cl new_keys_map_of by (rule set_eqI) (simp add: classify_cases, fastforce)
  have d: "deleted s = fst ` set hs - new_keys s"
    unfolding deleted_def del by (rule set_eqI) simp
  have "(\<exists>p c. (p, c) \<in> set (branch_taken s) \<and> c \<noteq> Unchanged) \<longleftrightarrow> added s \<union> modified s \<noteq> {}"
  proof
    assume "\<exists>p c. (p, c) \<in> set (branch_taken s) \<and> c \<noteq> Unchanged"
    then obtain p c where "(p, c) \<in> set (branch_taken s)" "c \<noteq> Unchanged" by blast
    then have "p \<in> added s \<union> modified s"
      by (cases c) (auto simp: added_def modified_def paths_of_def)
    then show "added s \<union> modified s \<noteq> {}" by blast
  next
    assume "added s \<union> modified s \<noteq> {}"
    then show "\<exists>p c. (p, c) \<in> set (branch_taken s) \<and> c \<noteq> Unchanged"
      by (auto simp: added_def modified_def paths_of_def)
  qed
  moreover have "deleted_files s \<noteq> [] \<longleftrightarrow> deleted s \<noteq> {}"
    by (simp add: deleted_def)
  ultimately have c: "changes_detected s \<longleftrightarrow> added s \<union> modified s \<union> deleted s \<noteq> {}"
    using cd by auto
  show thesis by (rule that [OF run h a m u d c])
qed

text \<open>The frame \<open>check_folder\<close> returns keeps the classes of the scan.\<close>

lemma cycle_classes:
  assumes load: "load_hashes E w = (Inr (JObj hs), w0)"
  obtains s f where "check_folder_scan E w = Inr s" "check_folder E w = Inr f"
    "f = summary (if changes_detected s \<or> fst ` set hs \<noteq> new_keys s
                  then s\<lparr>world := save_hashes E (current_files s) (world s)\<rparr> else s)"
    "hashes f = JObj hs" "current_files f = current_files s"
    "added f = {p \<in> new_keys f. p \<notin> fst ` set hs}"
    "modified f = {p \<in> new_keys f. p \<in> fst ` set hs \<and>
                     map_of hs p \<noteq> map_option JStr (map_of (current_files f) p)}"
    "unchanged f = {p \<in> new_keys f. map_of hs p = map_option JStr (map_of (current_files f) p)}"
    "deleted f = fst ` set hs - new_keys f"
    "changes_detected s \<longleftrightarrow> added f \<union> modified f \<union> deleted f \<noteq> {}"
proof (rule scan_classes [OF load])
  fix s :: "'a frame"
  assume run: "check_folder_scan E w = Inr s" and h: "hashes s = JObj hs"
    and a: "added s = {p \<in> new_keys s. p \<notin> fst ` set hs}"
    and m: "modified s = {p \<in> new_keys s. p \<in> fst ` set hs \<and>
                     map_of hs p \<noteq> map_option JStr (map_of (current_files s) p)}"
    and u: "unchanged s = {p \<in> new_keys s. map_of hs p = map_option JStr (map_of (current_files s) p)}"
    and d: "deleted s = fst ` set hs - new_keys s"
    and c: "changes_detected s \<longleftrightarrow> added s \<union> modified s \<union> deleted s \<noteq> {}"
  define f where "f = summary (if changes_detected s \<or> fst ` set hs \<noteq> new_keys s
                  then s\<lparr>world := save_hashes E (current_files s) (world s)\<rparr> else s)"
  have res: "check_folder E w = Inr f"
    using check_folder_result [OF run h] by (simp add: f_def)
  have fh: "hashes f = hashes s" and fc: "current_files f = current_files s"
    and fb: "branch_taken f = branch_taken s" and fd: "deleted_files f = deleted_files s"
    by (simp_all add: f_def summary_fields)
  have eqs: "new_keys f = new_keys s" "added f = added s" "modified f = modified s"
    "unchanged f = unchanged s" "deleted f = deleted s"
    by (simp_all add: new_keys_def added_def modified_def unchanged_def deleted_def
          paths_of_def fc fb fd)
  show thesis
    by (rule that [OF run res f_def]) (simp_all add: eqs fh h fc a m u d c)
qed

subsection \<open>The classification\<close>

lemmas demo_defs =
  demo_env_def demo_world_def demo_file_def demo_state_def demo_old_state_def demo_old_def
  demo_snapshot_def demo_bytes_def dict_json_def source_EXCLUDE_EXTENSIONS_def
  source_EXCLUDE_DIRECTORIES_def

lemmas io_defs = path_exists_def read_text_def write_text_def emit_def logging_def print_def

text \<open>
  C5. For every old snapshot (the dict the cycle loads) and the new snapshot the cycle
  computes, the four classes added, modified, deleted and unchanged are pairwise disjoint
  and cover exactly the keys of the two snapshots; added, modified and unchanged together
  are the keys of the new snapshot, and deleted is the keys of the old one without those
  of the new one. A cycle that loads a dict always completes.
\<close>

theorem diff_partition:
  assumes "fst (load_hashes E w) = Inr (JObj old)"
  shows "\<exists>s. check_folder E w = Inr s \<and> old_keys s = fst ` set old \<and>
           added s \<union> modified s \<union> unchanged s = new_keys s \<and>
           deleted s = old_keys s - new_keys s \<and>
           added s \<union> modified s \<union> deleted s \<union> unchanged s = old_keys s \<union> new_keys s \<and>
           added s \<inter> modified s = {} \<and> added s \<inter> deleted s = {} \<and>
           added s \<inter> unchanged s = {} \<and> modified s \<inter> deleted s = {} \<and>
           modified s \<inter> unchanged s = {} \<and> deleted s \<inter> unchanged s = {}"
proof -
  obtain w0 where load: "load_hashes E w = (Inr (JObj old), w0)"
    using assms by (cases "load_hashes E w") simp
  show ?thesis
  proof (rule cycle_classes [OF load])
    fix s f :: "'a frame"
    assume res: "check_folder E w = Inr f" and h: "hashes f = JObj old"
      and a: "added f = {p \<in> new_keys f. p \<notin> fst ` set old}"
      and m: "modified f = {p \<in> new_keys f. p \<in> fst ` set old \<and>
                     map_of old p \<noteq> map_option JStr (map_of (current_files f) p)}"
      and u: "unchanged f = {p \<in> new_keys f. map_of old p = map_option JStr (map_of (current_files f) p)}"
      and d: "deleted f = fst ` set old - new_keys f"
    have ok: "old_keys f = fst ` set old" using h by (rule old_keys_dict)
    have un: "\<And>p. p \<in> unchanged f \<Longrightarrow> p \<in> fst ` set old"
      unfolding u new_keys_map_of by (auto simp: key_iff)
    have p1: "added f \<union> modified f \<union> unchanged f = new_keys f"
      unfolding a m u by blast
    have p2: "added f \<inter> modified f = {}" "added f \<inter> deleted f = {}"
      "modified f \<inter> deleted f = {}" "modified f \<inter> unchanged f = {}" "deleted f \<inter> unchanged f = {}"
      unfolding a m u d by blast+
    have p3: "added f \<inter> unchanged f = {}"
      using un unfolding a by blast
    have p4: "added f \<union> modified f \<union> deleted f \<union> unchanged f = old_keys f \<union> new_keys f"
      using p1 unfolding ok d by blast
    show ?thesis
      using res ok p1 p2 p3 p4 d by auto
  qed
qed

theorem diff_partition_witness:
  "fst (load_hashes demo_env (demo_world demo_old_state)) = Inr (JObj demo_old) \<and>
   (\<exists>s. check_folder demo_env (demo_world demo_old_state) = Inr s \<and>
        old_keys s = fst ` set demo_old \<and>
        added s \<union> modified s \<union> unchanged s = new_keys s \<and>
        deleted s = old_keys s - new_keys s \<and>
        added s \<union> modified s \<union> deleted s \<union> unchanged s = old_keys s \<union> new_keys s \<and>
        added s \<inter> modified s = {} \<and> added s \<inter> deleted s = {} \<and>
        added s \<inter> unchanged s = {} \<and> modified s \<inter> deleted s = {} \<and>
        modified s \<inter> unchanged s = {} \<and> deleted s \<inter> unchanged s = {})"
proof -
  have h: "fst (load_hashes demo_env (demo_world demo_old_state)) = Inr (JObj demo_old)"
    by (simp add: load_hashes_def io_defs demo_env_def demo_world_def demo_file_def
          demo_old_state_def)
  show ?thesis using h diff_partition [OF h] by simp
qed

text \<open>
  C8. When the old snapshot is empty (no state file yet, a state file holding the empty
  dict, or one that is not JSON), the cycle completes and every path of the new snapshot
  is classified added: added is the key set of the new snapshot, and modified, deleted
  (and unchanged) are empty.
\<close>

theorem empty_old_all_added:
  assumes "fst (load_hashes E w) = Inr (JObj [])"
  shows "\<exists>s. check_folder E w = Inr s \<and> old_keys s = {} \<and> added s = new_keys s \<and>
           modified s = {} \<and> deleted s = {} \<and> unchanged s = {}"
proof -
  obtain w0 where load: "load_hashes E w = (Inr (JObj []), w0)"
    using assms by (cases "load_hashes E w") simp
  show ?thesis
  proof (rule cycle_classes [OF load])
    fix s f :: "'a frame"
    assume res: "check_folder E w = Inr f" and h: "hashes f = JObj []"
      and a: "added f = {p \<in> new_keys f. p \<notin> fst ` set []}"
      and m: "modified f = {p \<in> new_keys f. p \<in> fst ` set [] \<and>
                     map_of [] p \<noteq> map_option JStr (map_of (current_files f) p)}"
      and u: "unchanged f = {p \<in> new_keys f. map_of [] p = map_option JStr (map_of (current_files f) p)}"
      and d: "deleted f = fst ` set [] - new_keys f"
    have "old_keys f = {}" using old_keys_dict [OF h] by simp
    moreover have "added f = new_keys f" using a by simp
    moreover have "modified f = {}" using m by simp
    moreover have "deleted f = {}" using d by simp
    moreover have "unchanged f = {}" using u by (auto simp: new_keys_map_of)
    ultimately show ?thesis using res by simp
  qed
qed

theorem empty_old_all_added_witness:
  "fst (load_hashes demo_env (demo_world (demo_file None))) = Inr (JObj []) \<and>
   (\<exists>s. check_folder demo_env (demo_world (demo_file None)) = Inr s \<and> old_keys s = {} \<and>
        added s = new_keys s \<and> modified s = {} \<and> deleted s = {} \<and> unchanged s = {})"
proof -
  have h: "fst (load_hashes demo_env (demo_world (demo_file None))) = Inr (JObj [])"
    by (simp add: load_hashes_def io_defs demo_env_def demo_world_def demo_file_def)
  show ?thesis using h empty_old_all_added [OF h] by simp
qed

subsection \<open>Backup, save and load\<close>

lemma opened_emit: "opened (trace (emit e w)) = opened (trace w) @ opened [e]"
  by (simp add: emit_def opened_append)

lemma trace_emit: "trace (emit e w) = trace w @ [e]"
  by (simp add: emit_def)

lemma emit_fields:
  "hash_file (emit e w) = hash_file w" "backup_file (emit e w) = backup_file w"
  "os_walk (emit e w) = os_walk w" "file_bytes (emit e w) = file_bytes w"
  "smtp_ok (emit e w) = smtp_ok w"
  by (simp_all add: emit_def)

text \<open>Whether \<open>backup_hashes\<close> gets as far as opening the backup for writing.\<close>

lemma backup_hashes_hash_file: "hash_file (backup_hashes w) = hash_file w"
  by (simp add: backup_hashes_def logging_def emit_fields Let_def
        split: sum.splits prod.splits option.splits)

lemma backup_hashes_opened:
  "opened (trace (backup_hashes w)) =
     opened (trace w) @
       (if content (hash_file w) \<noteq> None \<and> read_fault (hash_file w) = None then [BACKUP_FILE] else [])"
  by (auto simp: backup_hashes_def logging_def opened_emit emit_fields Let_def
        path_exists_def read_text_def
        split: sum.splits prod.splits option.splits)

lemma backup_hashes_trace_mono: "set (trace w) \<subseteq> set (trace (backup_hashes w))"
  by (auto simp: backup_hashes_def logging_def trace_emit Let_def
        split: sum.splits prod.splits option.splits)

lemma backup_hashes_copies:
  assumes "content (hash_file w) = Some c" "read_fault (hash_file w) = None"
    "write_fault (backup_file w) = None"
  shows "content (backup_file (backup_hashes w)) = Some c"
    "Log INFO BackupCreated \<in> set (trace (backup_hashes w))"
  using assms
  by (simp_all add: backup_hashes_def logging_def trace_emit emit_fields Let_def
        path_exists_def read_text_def write_text_def)

lemma backup_hashes_failure_logged:
  assumes "content (hash_file w) \<noteq> None"
    "read_fault (hash_file w) \<noteq> None \<or> write_fault (backup_file w) \<noteq> None"
  shows "Log ERROR ErrorCreatingBackup \<in> set (trace (backup_hashes w))"
  using assms
  by (auto simp: backup_hashes_def logging_def trace_emit emit_fields Let_def
        path_exists_def read_text_def write_text_def split: option.splits wfault.splits)

lemma save_hashes_opened:
  "opened (trace (save_hashes E S w)) =
     opened (trace w) @
       (if content (hash_file w) \<noteq> None \<and> read_fault (hash_file w) = None then [BACKUP_FILE] else [])
       @ [HASH_FILE]"
  by (simp add: save_hashes_def Let_def logging_def opened_emit backup_hashes_opened
        split: prod.splits option.splits)

lemma save_hashes_backup_file:
  "backup_file (save_hashes E S w) = backup_file (backup_hashes w)"
  by (simp add: save_hashes_def Let_def logging_def emit_fields split: prod.splits option.splits)

lemma save_hashes_trace_mono: "set (trace (backup_hashes w)) \<subseteq> set (trace (save_hashes E S w))"
  by (auto simp: save_hashes_def Let_def logging_def trace_emit split: prod.splits option.splits)

lemma save_hashes_written:
  assumes "write_fault (hash_file w) = None"
  shows "hash_file (save_hashes E S w) = (hash_file w)\<lparr>content := Some (json_dumps E (dict_json S))\<rparr>"
  using assms
  by (simp add: save_hashes_def Let_def emit_fields write_text_def backup_hashes_hash_file)

lemma save_hashes_rest:
  "os_walk (save_hashes E S w) = os_walk w" "file_bytes (save_hashes E S w) = file_bytes w"
  "smtp_ok (save_hashes E S w) = smtp_ok w"
  by (simp_all add: save_hashes_def backup_hashes_def Let_def logging_def emit_fields
        split: prod.splits option.splits sum.splits)

lemma fst_load_hashes:
  "fst (load_hashes E w) =
     (case content (hash_file w) of
        None \<Rightarrow> Inr (JObj [])
      | Some t \<Rightarrow>
          (case read_fault (hash_file w) of
             Some e \<Rightarrow> Inl e
           | None \<Rightarrow> (case json_loads E t of None \<Rightarrow> Inr (JObj []) | Some v \<Rightarrow> Inr v)))"
  by (simp add: load_hashes_def path_exists_def read_text_def split: option.splits)

lemma save_hashes_read_fault:
  "read_fault (hash_file (save_hashes E S w)) = read_fault (hash_file w)"
  by (simp add: save_hashes_def Let_def logging_def emit_fields write_text_def
        backup_hashes_hash_file split: option.splits wfault.splits)

text \<open>
  C6. A call of \<open>save_hashes\<close> opens the backup for writing (when there is a readable
  state file to copy) before it opens the state file, and opens the state file in every
  case. When the copy succeeds, the backup holds the text the state file had before the
  call, whatever then happens to the write of the state file: restoring the backup makes
  \<open>load_hashes\<close> return what it returned before the call. When the copy fails, the
  failure is logged as an error and the state file is still written: with no fault on the
  state file itself it then holds the new snapshot.
\<close>

theorem backup_before_overwrite:
  "opened (trace (save_hashes E S w)) =
     opened (trace w) @
       (if content (hash_file w) \<noteq> None \<and> read_fault (hash_file w) = None then [BACKUP_FILE] else [])
       @ [HASH_FILE] \<and>
   (content (hash_file w) = Some c \<and> read_fault (hash_file w) = None \<and>
      write_fault (backup_file w) = None \<longrightarrow>
        content (backup_file (save_hashes E S w)) = Some c \<and>
        fst (load_hashes E (restore_from_backup (save_hashes E S w))) = fst (load_hashes E w)) \<and>
   (content (hash_file w) \<noteq> None \<and>
      (read_fault (hash_file w) \<noteq> None \<or> write_fault (backup_file w) \<noteq> None) \<longrightarrow>
        Log ERROR ErrorCreatingBackup \<in> set (trace (save_hashes E S w)) \<and>
        HASH_FILE \<in> set (opened (trace (save_hashes E S w))) \<and>
        (write_fault (hash_file w) = None \<longrightarrow>
           content (hash_file (save_hashes E S w)) = Some (json_dumps E (dict_json S))))"
proof (intro conjI impI)
  show "opened (trace (save_hashes E S w)) =
     opened (trace w) @
       (if content (hash_file w) \<noteq> None \<and> read_fault (hash_file w) = None then [BACKUP_FILE] else [])
       @ [HASH_FILE]"
    by (rule save_hashes_opened)
next
  assume a: "content (hash_file w) = Some c \<and> read_fault (hash_file w) = None \<and>
      write_fault (backup_file w) = None"
  then show b: "content (backup_file (save_hashes E S w)) = Some c"
    by (simp add: save_hashes_backup_file backup_hashes_copies)
  show "fst (load_hashes E (restore_from_backup (save_hashes E S w))) = fst (load_hashes E w)"
    using a b by (simp add: fst_load_hashes restore_from_backup_def save_hashes_read_fault)
next
  assume a: "content (hash_file w) \<noteq> None \<and>
      (read_fault (hash_file w) \<noteq> None \<or> write_fault (backup_file w) \<noteq> None)"
  then have "Log ERROR ErrorCreatingBackup \<in> set (trace (backup_hashes w))"
    by (intro backup_hashes_failure_logged) simp_all
  then show "Log ERROR ErrorCreatingBackup \<in> set (trace (save_hashes E S w))"
    using save_hashes_trace_mono [of w E S] by blast
  show "HASH_FILE \<in> set (opened (trace (save_hashes E S w)))"
    by (simp add: save_hashes_opened)
  assume "write_fault (hash_file w) = None"
  then show "content (hash_file (save_hashes E S w)) = Some (json_dumps E (dict_json S))"
    by (simp add: save_hashes_written)
qed

theorem backup_before_overwrite_witness:
  "opened (trace (save_hashes demo_env demo_snapshot (demo_world demo_failing_state))) =
     [BACKUP_FILE, HASH_FILE] \<and>
   content (hash_file (save_hashes demo_env demo_snapshot (demo_world demo_failing_state))) =
     Some Junk \<and>
   content (backup_file (save_hashes demo_env demo_snapshot (demo_world demo_failing_state))) =
     Some (Doc (JObj demo_old)) \<and>
   fst (load_hashes demo_env
         (restore_from_backup (save_hashes demo_env demo_snapshot (demo_world demo_failing_state)))) =
     Inr (JObj demo_old) \<and>
   Log ERROR ErrorCreatingBackup \<in> set (trace (save_hashes demo_env demo_snapshot demo_world_no_backup)) \<and>
   content (hash_file (save_hashes demo_env demo_snapshot demo_world_no_backup)) =
     Some (Doc (dict_json demo_snapshot))"
proof -
  let ?w = "demo_world demo_failing_state"
  have h: "content (hash_file ?w) = Some (Doc (JObj demo_old))" "read_fault (hash_file ?w) = None"
    "write_fault (backup_file ?w) = None" "trace ?w = []"
    "write_fault (hash_file ?w) = Some (WriteFails Junk)"
    by (simp_all add: demo_world_def demo_failing_state_def demo_file_def)
  have l: "fst (load_hashes demo_env ?w) = Inr (JObj demo_old)"
    by (simp add: fst_load_hashes h demo_env_def)
  have f: "content (hash_file (save_hashes demo_env demo_snapshot ?w)) = Some Junk"
    by (simp add: save_hashes_def Let_def write_text_def backup_hashes_hash_file h
          logging_def emit_fields)
  let ?v = "demo_world_no_backup"
  have g: "content (hash_file ?v) \<noteq> None" "write_fault (backup_file ?v) \<noteq> None"
    "write_fault (hash_file ?v) = None"
    by (simp_all add: demo_world_no_backup_def demo_world_def demo_old_state_def demo_file_def)
  have d: "json_dumps demo_env = Doc" by (simp add: demo_env_def)
  show ?thesis
    using backup_before_overwrite [of demo_env demo_snapshot ?w "Doc (JObj demo_old)"]
      backup_before_overwrite [of demo_env demo_snapshot ?v]
    by (simp add: h l f g d)
qed

text \<open>
  C9. Saving a snapshot \<open>S\<close> (a dict from path strings to digest strings) and then loading
  returns exactly \<open>S\<close>, for every \<open>S\<close> that the JSON library reads back as written, when
  the state file can be written and read (the backup step may succeed or fail).
\<close>

theorem save_load_roundtrip:
  assumes "json_loads E (json_dumps E (dict_json S)) = Some (dict_json S)"
    and "write_fault (hash_file w) = None"
    and "read_fault (hash_file w) = None"
  shows "fst (load_hashes E (save_hashes E S w)) = Inr (dict_json S)"
  using assms by (simp add: fst_load_hashes save_hashes_written)

theorem save_load_roundtrip_witness:
  "json_loads demo_env (json_dumps demo_env (dict_json demo_snapshot)) = Some (dict_json demo_snapshot) \<and>
   write_fault (hash_file (demo_world demo_old_state)) = None \<and>
   read_fault (hash_file (demo_world demo_old_state)) = None \<and>
   fst (load_hashes demo_env (save_hashes demo_env demo_snapshot (demo_world demo_old_state))) =
     Inr (JObj [(''test_folder/a.txt'', JStr ''sha256:hello''),
                (''test_folder/sub/b.txt'', JStr ''sha256:world'')])"
proof -
  have a: "json_loads demo_env (json_dumps demo_env (dict_json demo_snapshot)) = Some (dict_json demo_snapshot)"
    by (simp add: demo_env_def)
  have b: "write_fault (hash_file (demo_world demo_old_state)) = None"
    and c: "read_fault (hash_file (demo_world demo_old_state)) = None"
    by (simp_all add: demo_world_def demo_old_state_def demo_file_def)
  have d: "dict_json demo_snapshot =
      JObj [(''test_folder/a.txt'', JStr ''sha256:hello''),
            (''test_folder/sub/b.txt'', JStr ''sha256:world'')]"
    by (simp add: dict_json_def demo_snapshot_def)
  show ?thesis
    using a b c save_load_roundtrip [OF a b c] by (simp add: d)
qed

subsection \<open>When the snapshot is saved\<close>

lemma opens_opened: "opens f tr = length (filter (\<lambda>g. g = f) (opened tr))"
  by (induction tr rule: opened.induct) (auto simp: opens_def)

lemma scan_quiet:
  assumes "check_folder_scan E w = Inr s"
  shows "quiet w (world s)"
proof -
  from scan_Inr_dict [OF assms] obtain hs w0 where load: "load_hashes E w = (Inr (JObj hs), w0)"
    by blast
  show ?thesis
  proof (rule scan_dict [OF load])
    fix s' :: "'a frame"
    assume "check_folder_scan E w = Inr s'" "quiet w (world s')"
    with assms show ?thesis by simp
  qed
qed

text \<open>The guard of line 157 holds exactly when some path is added, modified or deleted.\<close>

lemma cycle_saves:
  assumes load: "load_hashes E w = (Inr (JObj hs), w0)"
  obtains s f where "check_folder_scan E w = Inr s" "check_folder E w = Inr f"
    "hashes f = JObj hs" "current_files f = current_files s" "quiet w (world s)"
    "added f \<union> modified f \<union> deleted f \<noteq> {} \<Longrightarrow>
       f = summary (s\<lparr>world := save_hashes E (current_files s) (world s)\<rparr>)"
    "added f \<union> modified f \<union> deleted f = {} \<Longrightarrow> f = summary s"
    "added f \<union> modified f \<union> deleted f = {} \<Longrightarrow>
       fst ` set hs = new_keys f \<and>
       (\<forall>p \<in> new_keys f. map_of hs p = map_option JStr (map_of (current_files f) p))"
proof (rule cycle_classes [OF load])
  fix s f :: "'a frame"
  assume run: "check_folder_scan E w = Inr s" and res: "check_folder E w = Inr f"
    and f: "f = summary (if changes_detected s \<or> fst ` set hs \<noteq> new_keys s
                  then s\<lparr>world := save_hashes E (current_files s) (world s)\<rparr> else s)"
    and h: "hashes f = JObj hs" and fc: "current_files f = current_files s"
    and a: "added f = {p \<in> new_keys f. p \<notin> fst ` set hs}"
    and m: "modified f = {p \<in> new_keys f. p \<in> fst ` set hs \<and>
                     map_of hs p \<noteq> map_option JStr (map_of (current_files f) p)}"
    and d: "deleted f = fst ` set hs - new_keys f"
    and c: "changes_detected s \<longleftrightarrow> added f \<union> modified f \<union> deleted f \<noteq> {}"
  have nk: "new_keys f = new_keys s" by (simp add: new_keys_def fc)
  have k: "fst ` set hs \<noteq> new_keys s \<Longrightarrow> added f \<union> deleted f \<noteq> {}"
    unfolding a d nk by blast
  have g: "(changes_detected s \<or> fst ` set hs \<noteq> new_keys s) \<longleftrightarrow>
           added f \<union> modified f \<union> deleted f \<noteq> {}"
    using c k by blast
  have q: "quiet w (world s)" using run by (rule scan_quiet)
  have same: "fst ` set hs = new_keys f \<and>
       (\<forall>p \<in> new_keys f. map_of hs p = map_option JStr (map_of (current_files f) p))"
    if e: "added f \<union> modified f \<union> deleted f = {}"
  proof -
    from e have ea: "added f = {}" and em: "modified f = {}" and ed: "deleted f = {}" by blast+
    have "fst ` set hs = new_keys f"
      using ea ed unfolding a d by blast
    moreover have "\<forall>p \<in> new_keys f. map_of hs p = map_option JStr (map_of (current_files f) p)"
    proof
      fix p assume p: "p \<in> new_keys f"
      have "p \<notin> added f" using ea by simp
      with p have k: "p \<in> fst ` set hs" unfolding a by simp
      have "p \<notin> modified f" using em by simp
      with p k show "map_of hs p = map_option JStr (map_of (current_files f) p)"
        unfolding m by simp
    qed
    ultimately show ?thesis by blast
  qed
  show thesis
  proof (rule that [OF run res h fc q])
    assume "added f \<union> modified f \<union> deleted f \<noteq> {}"
    with g have cnd: "changes_detected s \<or> fst ` set hs \<noteq> new_keys s" by blast
    show "f = summary (s\<lparr>world := save_hashes E (current_files s) (world s)\<rparr>)"
      by (rule trans [OF f]) (simp add: cnd)
  next
    assume "added f \<union> modified f \<union> deleted f = {}"
    with g have cnd: "\<not> (changes_detected s \<or> fst ` set hs \<noteq> new_keys s)" by blast
    show "f = summary s"
      by (rule trans [OF f]) (simp only: cnd if_False)
  next
    assume "added f \<union> modified f \<union> deleted f = {}"
    then show "fst ` set hs = new_keys f \<and>
       (\<forall>p \<in> new_keys f. map_of hs p = map_option JStr (map_of (current_files f) p))"
      by (rule same)
  qed
qed

lemma world_after_skip:
  assumes "quiet w (world s)"
  shows "quiet w (world (summary s))"
  using assms summary_fields(7) [of s] by (rule quiet_trans)

lemma world_after_save:
  fixes E :: "'t env" and S :: "(string \<times> string) list" and s :: "'t frame"
  assumes q: "quiet w (world s)"
  defines "f \<equiv> summary (s\<lparr>world := save_hashes E S (world s)\<rparr>)"
  shows "opened (trace (world f)) =
           opened (trace w) @
             (if content (hash_file w) \<noteq> None \<and> read_fault (hash_file w) = None then [BACKUP_FILE] else [])
             @ [HASH_FILE]"
    "write_fault (hash_file w) = None \<Longrightarrow>
       hash_file (world f) = (hash_file w)\<lparr>content := Some (json_dumps E (dict_json S))\<rparr>"
proof -
  define v where "v = save_hashes E S (world s)"
  have qv: "quiet v (world f)"
    using summary_fields(7) [of "s\<lparr>world := v\<rparr>"] by (simp add: f_def v_def)
  have "opened (trace (world f)) = opened (trace v)" using qv by (rule quiet_fields)
  also have "\<dots> = opened (trace (world s)) @
         (if content (hash_file (world s)) \<noteq> None \<and> read_fault (hash_file (world s)) = None
          then [BACKUP_FILE] else []) @ [HASH_FILE]"
    unfolding v_def by (rule save_hashes_opened)
  finally show "opened (trace (world f)) =
           opened (trace w) @
             (if content (hash_file w) \<noteq> None \<and> read_fault (hash_file w) = None then [BACKUP_FILE] else [])
             @ [HASH_FILE]"
    by (simp add: quiet_fields [OF q])
  assume "write_fault (hash_file w) = None"
  then have "hash_file v = (hash_file w)\<lparr>content := Some (json_dumps E (dict_json S))\<rparr>"
    unfolding v_def by (simp add: save_hashes_written quiet_fields [OF q])
  then show "hash_file (world f) = (hash_file w)\<lparr>content := Some (json_dumps E (dict_json S))\<rparr>"
    by (simp add: quiet_fields [OF qv])
qed

text \<open>
  What the guard of line 157 amounts to: \<open>check_folder\<close> calls \<open>save_hashes\<close> exactly when
  the pass classified at least one path as added, modified or deleted. In such a pass the
  state file is opened for writing once and, when the write does not fail, holds the new
  snapshot afterwards; in a pass without a change it is not opened, and the state file and
  its backup are left as they were.
\<close>

lemma save_guard_is_change:
  assumes "fst (load_hashes E w) = Inr (JObj old)"
  shows "\<exists>s. check_folder E w = Inr s \<and>
           opens HASH_FILE (trace (world s)) =
             opens HASH_FILE (trace w) + (if added s \<union> modified s \<union> deleted s = {} then 0 else 1) \<and>
           (added s \<union> modified s \<union> deleted s = {} \<longrightarrow>
              hash_file (world s) = hash_file w \<and> backup_file (world s) = backup_file w) \<and>
           (added s \<union> modified s \<union> deleted s \<noteq> {} \<and> write_fault (hash_file w) = None \<longrightarrow>
              hash_file (world s) =
                (hash_file w)\<lparr>content := Some (json_dumps E (dict_json (current_files s)))\<rparr>)"
proof -
  obtain w0 where load: "load_hashes E w = (Inr (JObj old), w0)"
    using assms by (cases "load_hashes E w") simp
  show ?thesis
  proof (rule cycle_saves [OF load])
    fix s f :: "'a frame"
    assume res: "check_folder E w = Inr f" and q: "quiet w (world s)"
      and fc: "current_files f = current_files s"
      and yes: "added f \<union> modified f \<union> deleted f \<noteq> {} \<Longrightarrow>
         f = summary (s\<lparr>world := save_hashes E (current_files s) (world s)\<rparr>)"
      and no: "added f \<union> modified f \<union> deleted f = {} \<Longrightarrow> f = summary s"
    show ?thesis
    proof (cases "added f \<union> modified f \<union> deleted f = {}")
      case True
      from no [OF True] world_after_skip [OF q] have qf: "quiet w (world f)" by simp
      show ?thesis
        using res True quiet_fields [OF qf] by (simp add: opens_opened)
    next
      case False
      note fs = yes [OF False]
      from fs world_after_save(1) [OF q, of E "current_files s"]
      have o: "opens HASH_FILE (trace (world f)) = opens HASH_FILE (trace w) + 1"
        by (simp add: opens_opened)
      have c: "hash_file (world f) =
                (hash_file w)\<lparr>content := Some (json_dumps E (dict_json (current_files f)))\<rparr>"
        if "write_fault (hash_file w) = None"
        using world_after_save(2) [OF q that, of E "current_files s"] fs fc by simp
      from res False o c show ?thesis by auto
    qed
  qed
qed

text \<open>
  C1. The comment of line 156 says that the state file is always updated, and the
  specification that the new snapshot is persisted on every pass; line 157 guards the
  save. With the state file holding exactly the snapshot of the folder, the pass completes
  without opening the state file or the backup for writing, where a pass that saves
  always opens both. The skipped save shows on disk: with an empty folder and a state file
  that is not JSON, the pass logs that it resets and leaves the state file as it was,
  where a pass that saves always leaves the empty dict in it.
\<close>

theorem save_skipped_without_change:
  "files_written (check_folder demo_env (demo_world demo_state)) = Inr [] \<and>
   files_written (check_folder_always_saving demo_env (demo_world demo_state)) =
     Inr [BACKUP_FILE, HASH_FILE] \<and>
   files_written (check_folder demo_env demo_empty_folder) = Inr [] \<and>
   state_after (check_folder demo_env demo_empty_folder) = Inr (Some Junk) \<and>
   state_after (check_folder_always_saving demo_env demo_empty_folder) =
     Inr (Some (Doc (JObj [])))"
  by code_simp


lemma dict_eq_refl: "dict_eq a a"
  by (simp add: dict_eq_def)

lemma py_eq_refl: "py_eq x x"
  by (cases x) (simp_all add: dict_eq_refl)

lemma same_load_refl: "same_load r r"
  by (cases r) (simp_all add: py_eq_refl)

lemma map_of_dict_json:
  "map_of (map (\<lambda>(k, h). (k, JStr h)) d) p = map_option JStr (map_of d p)"
  by (induction d) auto

lemma keys_dict_json: "map fst (map (\<lambda>(k, h). (k, JStr h)) d) = map fst d"
  by (induction d) auto

lemma dict_eq_dict_json:
  assumes "fst ` set hs = fst ` set d"
    and "\<forall>p \<in> fst ` set d. map_of hs p = map_option JStr (map_of d p)"
  shows "py_eq (JObj hs) (dict_json d)"
proof -
  have "set (map fst hs) = set (map fst (map (\<lambda>(k, h). (k, JStr h)) d))"
    unfolding keys_dict_json using assms(1) by simp
  moreover have "\<forall>k \<in> set (map fst hs).
      map_of hs k = map_of (map (\<lambda>(k, h). (k, JStr h)) d) k"
    unfolding map_of_dict_json using assms by simp
  ultimately show ?thesis
    unfolding dict_json_def py_eq.simps dict_eq_def by (rule conjI)
qed

text \<open>
  C10. A pass skips the save only when the dict it loaded equals the snapshot it computed
  (the same keys with the same digests). Hence, when the state file can be written and read
  and the JSON library reads back what it writes, what a later \<open>load_hashes\<close> returns after
  \<open>check_folder\<close> is equal, as a Python value, to what it returns after the same
  pass with an unconditional save; and the two passes raise the same exceptions.
\<close>

theorem conditional_save_equivalent:
  assumes wf: "write_fault (hash_file w) = None" and rr: "read_fault (hash_file w) = None"
    and rt: "\<forall>d. json_loads E (json_dumps E (dict_json d)) = Some (dict_json d)"
  shows "same_load (then_load E (check_folder E w)) (then_load E (check_folder_always_saving E w)) \<and>
         (\<forall>s. check_folder E w = Inr s \<and>
               opens HASH_FILE (trace (world s)) = opens HASH_FILE (trace w) \<longrightarrow>
               py_eq (hashes s) (dict_json (current_files s)))"
proof (cases "check_folder_scan E w")
  case (Inl e)
  then have "check_folder E w = Inl e" "check_folder_always_saving E w = Inl e"
    by (simp_all add: check_folder_def check_folder_always_saving_def)
  then show ?thesis by (simp add: then_load_def)
next
  case (Inr s0)
  from scan_Inr_dict [OF Inr] obtain hs w0 where load: "load_hashes E w = (Inr (JObj hs), w0)"
    by blast
  show ?thesis
  proof (rule cycle_saves [OF load])
    fix s f :: "'a frame"
    assume run: "check_folder_scan E w = Inr s" and res: "check_folder E w = Inr f"
      and h: "hashes f = JObj hs" and fc: "current_files f = current_files s"
      and q: "quiet w (world s)"
      and yes: "added f \<union> modified f \<union> deleted f \<noteq> {} \<Longrightarrow>
         f = summary (s\<lparr>world := save_hashes E (current_files s) (world s)\<rparr>)"
      and no: "added f \<union> modified f \<union> deleted f = {} \<Longrightarrow> f = summary s"
      and same: "added f \<union> modified f \<union> deleted f = {} \<Longrightarrow>
         fst ` set hs = new_keys f \<and>
         (\<forall>p \<in> new_keys f. map_of hs p = map_option JStr (map_of (current_files f) p))"
    define g where "g = summary (s\<lparr>world := save_hashes E (current_files s) (world s)\<rparr>)"
    have alw: "check_folder_always_saving E w = Inr g"
      using check_folder_always_saving_result [OF run] by (simp add: g_def)
    have eq: "py_eq (JObj hs) (dict_json (current_files f))"
      if e: "added f \<union> modified f \<union> deleted f = {}"
      using same [OF e] unfolding new_keys_def
      by (intro dict_eq_dict_json) simp_all
    have l_always: "fst (load_hashes E (world g)) = Inr (dict_json (current_files s))"
      using world_after_save(2) [OF q wf, of E "current_files s"] rr rt
      by (simp add: g_def fst_load_hashes)
    have part1: "same_load (then_load E (check_folder E w))
                   (then_load E (check_folder_always_saving E w))"
    proof (cases "added f \<union> modified f \<union> deleted f = {}")
      case True
      from no [OF True] world_after_skip [OF q] have qf: "quiet w (world f)" by simp
      have "fst (load_hashes E (world f)) = fst (load_hashes E w)"
        unfolding fst_load_hashes quiet_fields(1) [OF qf] by (rule refl)
      then have "fst (load_hashes E (world f)) = Inr (JObj hs)" using load by simp
      then show ?thesis
        using res alw l_always eq [OF True] by (simp add: then_load_def fc)
    next
      case False
      from yes [OF False] have "f = g" by (simp add: g_def)
      then show ?thesis using res alw by (simp add: same_load_refl)
    qed
    have part2: "py_eq (hashes f) (dict_json (current_files f))"
      if o: "opens HASH_FILE (trace (world f)) = opens HASH_FILE (trace w)"
    proof (cases "added f \<union> modified f \<union> deleted f = {}")
      case True
      from eq [OF True] h show ?thesis by simp
    next
      case False
      from yes [OF False] world_after_save(1) [OF q, of E "current_files s"]
      have "opens HASH_FILE (trace (world f)) = opens HASH_FILE (trace w) + 1"
        by (simp add: opens_opened)
      with o show ?thesis by simp
    qed
    show ?thesis using part1 part2 res by auto
  qed
qed

theorem conditional_save_equivalent_witness:
  "write_fault (hash_file (demo_world demo_state)) = None \<and>
   read_fault (hash_file (demo_world demo_state)) = None \<and>
   (\<forall>d. json_loads demo_env (json_dumps demo_env (dict_json d)) = Some (dict_json d)) \<and>
   files_written (check_folder demo_env (demo_world demo_state)) = Inr [] \<and>
   files_written (check_folder_always_saving demo_env (demo_world demo_state)) =
     Inr [BACKUP_FILE, HASH_FILE] \<and>
   same_load (then_load demo_env (check_folder demo_env (demo_world demo_state)))
     (then_load demo_env (check_folder_always_saving demo_env (demo_world demo_state)))"
proof -
  have a: "write_fault (hash_file (demo_world demo_state)) = None"
    and b: "read_fault (hash_file (demo_world demo_state)) = None"
    by (simp_all add: demo_world_def demo_state_def demo_file_def)
  have c: "\<forall>d. json_loads demo_env (json_dumps demo_env (dict_json d)) = Some (dict_json d)"
    by (simp add: demo_env_def)
  have d: "files_written (check_folder demo_env (demo_world demo_state)) = Inr []"
    by code_simp
  have e: "files_written (check_folder_always_saving demo_env (demo_world demo_state)) =
     Inr [BACKUP_FILE, HASH_FILE]"
    by code_simp
  from conditional_save_equivalent [OF a b c] a b c d e show ?thesis by blast
qed

subsection \<open>Paths and fragments\<close>

lemma sublist_around:
  assumes "c \<notin> set frag"
  shows "sublist frag (a @ c # b) \<longleftrightarrow> sublist frag a \<or> sublist frag b"
proof
  assume "sublist frag (a @ c # b)"
  then consider "sublist frag a" | "sublist frag (c # b)"
    | x1 x2 where "frag = x1 @ x2" "suffix x1 a" "prefix x2 (c # b)"
    unfolding sublist_append by blast
  then show "sublist frag a \<or> sublist frag b"
  proof cases
    case 1
    then show ?thesis by simp
  next
    case 2
    then consider "prefix frag (c # b)" | "sublist frag b"
      unfolding sublist_Cons_right by blast
    then show ?thesis
    proof cases
      case 1
      with assms have "frag = []" by (cases frag) auto
      then show ?thesis by simp
    next
      case 2
      then show ?thesis by simp
    qed
  next
    case 3
    from 3(3) assms 3(1) have "x2 = []" by (cases x2) auto
    with 3 have "suffix frag a" by simp
    then show ?thesis by (simp add: suffix_imp_sublist)
  qed
next
  assume "sublist frag a \<or> sublist frag b"
  then show "sublist frag (a @ c # b)"
  proof
    assume "sublist frag a"
    then show ?thesis unfolding sublist_append by blast
  next
    assume "sublist frag b"
    then have "sublist frag (c # b)" unfolding sublist_Cons_right by blast
    then show ?thesis unfolding sublist_append by blast
  qed
qed

lemma segments_nonempty: "segments root \<noteq> []"
  by (induction root) (auto split: list.splits)

lemma join_segments_Cons:
  "segs \<noteq> [] \<Longrightarrow> join_segments (seg # segs) = seg @ CHR ''/'' # join_segments segs"
  by (cases segs) simp_all

lemma join_segments_extend:
  "join_segments ((c # seg) # segs) = c # join_segments (seg # segs)"
  by (cases segs) simp_all

lemma join_segments_segments: "join_segments (segments root) = root"
proof (induction root)
  case Nil
  show ?case by simp
next
  case (Cons c cs)
  show ?case
  proof (cases "c = CHR ''/''")
    case True
    then show ?thesis
      using Cons segments_nonempty [of cs] by (simp add: join_segments_Cons)
  next
    case False
    obtain seg segs where s: "segments cs = seg # segs"
      using segments_nonempty [of cs] by (cases "segments cs") auto
    with False Cons show ?thesis by (simp add: join_segments_extend)
  qed
qed

lemma sublist_join_segments:
  assumes "CHR ''/'' \<notin> set frag" "segs \<noteq> []"
  shows "sublist frag (join_segments segs) \<longleftrightarrow> (\<exists>seg \<in> set segs. sublist frag seg)"
  using assms(2)
proof (induction segs rule: join_segments.induct)
  case 1
  then show ?case by simp
next
  case (2 seg)
  show ?case by simp
next
  case (3 seg seg' segs)
  then have "sublist frag (join_segments (seg' # segs)) \<longleftrightarrow>
             (\<exists>x \<in> set (seg' # segs). sublist frag x)"
    by simp
  then show ?case
    by (simp add: sublist_around [OF assms(1)])
qed

text \<open>For a fragment without a separator, the test of line 122 on the whole root is the
  test on the segments of the root.\<close>

lemma fragment_in_segment:
  assumes "CHR ''/'' \<notin> set frag"
  shows "(\<exists>seg \<in> set (segments root). sublist frag seg) \<longleftrightarrow> sublist frag root"
  using sublist_join_segments [OF assms segments_nonempty, of root]
  by (simp add: join_segments_segments)

lemma spec_excluded_iff:
  assumes "\<forall>frag \<in> set (EXCLUDE_DIRECTORIES E). CHR ''/'' \<notin> set frag"
  shows "spec_excluded E root fl \<longleftrightarrow> dir_excluded E root \<or> ext_excluded E fl"
proof -
  have "(\<exists>seg \<in> set (segments root). \<exists>frag \<in> set (EXCLUDE_DIRECTORIES E). sublist frag seg) \<longleftrightarrow>
        (\<exists>frag \<in> set (EXCLUDE_DIRECTORIES E). \<exists>seg \<in> set (segments root). sublist frag seg)"
    by blast
  also have "\<dots> \<longleftrightarrow> (\<exists>frag \<in> set (EXCLUDE_DIRECTORIES E). sublist frag root)"
    using assms by (simp add: fragment_in_segment)
  finally show ?thesis
    by (simp add: spec_excluded_def dir_excluded_def ext_excluded_def)
qed

lemma os_path_join_dir_part:
  assumes "CHR ''/'' \<notin> set f"
  shows "os_path_join root f = dir_part root @ f"
proof -
  have "\<not> prefix ''/'' f" using assms by (cases f) auto
  then show ?thesis by (simp add: os_path_join_def dir_part_def)
qed

lemma dir_part_shape: "dir_part root = [] \<or> last (dir_part root) = CHR ''/''"
  by (auto simp: dir_part_def suffix_def)

lemma name_of_path:
  assumes "CHR ''/'' \<notin> set f" "R = [] \<or> last R = CHR ''/''"
  shows "takeWhile (\<lambda>c. c \<noteq> CHR ''/'') (rev (R @ f)) = rev f"
proof -
  have "takeWhile (\<lambda>c. c \<noteq> CHR ''/'') (rev R) = []"
    using assms(2) by (cases R rule: rev_cases) auto
  moreover have "takeWhile (\<lambda>c. c \<noteq> CHR ''/'') (rev f @ rev R) =
                 rev f @ takeWhile (\<lambda>c. c \<noteq> CHR ''/'') (rev R)"
    by (rule takeWhile_append2) (use assms(1) in auto)
  ultimately show ?thesis by simp
qed

lemma split_unique:
  assumes "R @ f = R' @ f'" "CHR ''/'' \<notin> set f" "CHR ''/'' \<notin> set f'"
    "R = [] \<or> last R = CHR ''/''" "R' = [] \<or> last R' = CHR ''/''"
  shows "R = R' \<and> f = f'"
proof -
  have "rev f = rev f'"
    using name_of_path [OF assms(2) assms(4)] name_of_path [OF assms(3) assms(5)] assms(1)
    by simp
  then have "f = f'" by simp
  with assms(1) show ?thesis by simp
qed

lemma dir_excluded_dir_part:
  assumes "\<forall>frag \<in> set (EXCLUDE_DIRECTORIES E). CHR ''/'' \<notin> set frag"
  shows "dir_excluded E (dir_part root) \<longleftrightarrow> dir_excluded E root"
proof -
  have "sublist frag (root @ ''/'') \<longleftrightarrow> sublist frag root"
    if "frag \<in> set (EXCLUDE_DIRECTORIES E)" for frag
  proof -
    from that assms have "CHR ''/'' \<notin> set frag" by blast
    from sublist_around [OF this, of root "[]"] show ?thesis by auto
  qed
  then show ?thesis
    by (auto simp: dir_excluded_def dir_part_def)
qed

text \<open>Two walk entries that name the same path get the same verdict from both filters.\<close>

lemma same_path_same_verdict:
  assumes frag: "\<forall>frag \<in> set (EXCLUDE_DIRECTORIES E). CHR ''/'' \<notin> set frag"
    and "CHR ''/'' \<notin> set f" "CHR ''/'' \<notin> set f'"
    and "os_path_join root f = os_path_join root' f'"
  shows "f = f'" "dir_excluded E root \<longleftrightarrow> dir_excluded E root'"
proof -
  have e: "dir_part root @ f = dir_part root' @ f'"
    using assms by (simp add: os_path_join_dir_part)
  from split_unique [OF e assms(2) assms(3) dir_part_shape dir_part_shape]
  have d: "dir_part root = dir_part root'" and "f = f'" by simp_all
  then show "f = f'" by simp
  show "dir_excluded E root \<longleftrightarrow> dir_excluded E root'"
    using dir_excluded_dir_part [OF frag, of root] dir_excluded_dir_part [OF frag, of root'] d
    by simp
qed

lemma scanned_iff:
  "p \<in> scanned E w walk \<longleftrightarrow>
     (\<exists>root files f. (root, files) \<in> set walk \<and> \<not> dir_excluded E root \<and> f \<in> set files \<and>
        \<not> ext_excluded E f \<and> p = os_path_join root f \<and> digest E w p \<noteq> None)"
proof
  assume "p \<in> scanned E w walk"
  then obtain root files where rf: "(root, files) \<in> set walk"
    and p: "p \<in> (if dir_excluded E root then {}
        else os_path_join root `
               {f \<in> set files. \<not> ext_excluded E f \<and> digest E w (os_path_join root f) \<noteq> None})"
    unfolding scanned_def by blast
  then have nd: "\<not> dir_excluded E root" by (auto split: if_splits)
  with p obtain f where "f \<in> set files" "\<not> ext_excluded E f"
    "digest E w (os_path_join root f) \<noteq> None" "p = os_path_join root f"
    by auto
  with rf nd show "\<exists>root files f. (root, files) \<in> set walk \<and> \<not> dir_excluded E root \<and> f \<in> set files \<and>
        \<not> ext_excluded E f \<and> p = os_path_join root f \<and> digest E w p \<noteq> None"
    by blast
next
  assume "\<exists>root files f. (root, files) \<in> set walk \<and> \<not> dir_excluded E root \<and> f \<in> set files \<and>
        \<not> ext_excluded E f \<and> p = os_path_join root f \<and> digest E w p \<noteq> None"
  then obtain root files f where rf: "(root, files) \<in> set walk" and nd: "\<not> dir_excluded E root"
    and f: "f \<in> set files" "\<not> ext_excluded E f" "p = os_path_join root f" "digest E w p \<noteq> None"
    by blast
  have "p \<in> (case (root, files) of (root, files) \<Rightarrow> if dir_excluded E root then {}
        else os_path_join root `
               {f \<in> set files. \<not> ext_excluded E f \<and> digest E w (os_path_join root f) \<noteq> None})"
    using nd f by auto
  with rf show "p \<in> scanned E w walk"
    unfolding scanned_def by blast
qed

lemma unreadable_iff:
  "p \<in> unreadable E w walk \<longleftrightarrow>
     (\<exists>root files f. (root, files) \<in> set walk \<and> \<not> dir_excluded E root \<and> f \<in> set files \<and>
        \<not> ext_excluded E f \<and> p = os_path_join root f \<and> file_bytes w p = None)"
proof
  assume "p \<in> unreadable E w walk"
  then obtain root files where rf: "(root, files) \<in> set walk"
    and p: "p \<in> (if dir_excluded E root then {}
        else os_path_join root `
               {f \<in> set files. \<not> ext_excluded E f \<and> file_bytes w (os_path_join root f) = None})"
    unfolding unreadable_def by blast
  then have nd: "\<not> dir_excluded E root" by (auto split: if_splits)
  with p obtain f where "f \<in> set files" "\<not> ext_excluded E f"
    "file_bytes w (os_path_join root f) = None" "p = os_path_join root f"
    by auto
  with rf nd show "\<exists>root files f. (root, files) \<in> set walk \<and> \<not> dir_excluded E root \<and> f \<in> set files \<and>
        \<not> ext_excluded E f \<and> p = os_path_join root f \<and> file_bytes w p = None"
    by blast
next
  assume "\<exists>root files f. (root, files) \<in> set walk \<and> \<not> dir_excluded E root \<and> f \<in> set files \<and>
        \<not> ext_excluded E f \<and> p = os_path_join root f \<and> file_bytes w p = None"
  then obtain root files f where rf: "(root, files) \<in> set walk" and nd: "\<not> dir_excluded E root"
    and f: "f \<in> set files" "\<not> ext_excluded E f" "p = os_path_join root f" "file_bytes w p = None"
    by blast
  have "p \<in> (case (root, files) of (root, files) \<Rightarrow> if dir_excluded E root then {}
        else os_path_join root `
               {f \<in> set files. \<not> ext_excluded E f \<and> file_bytes w (os_path_join root f) = None})"
    using nd f by auto
  with rf show "p \<in> unreadable E w walk"
    unfolding unreadable_def by blast
qed

subsection \<open>What the snapshot holds\<close>

lemma summary_trace_mono: "set (trace (world s)) \<subseteq> set (trace (world (summary s)))"
  using quiet_fields(6) [OF summary_fields(7) [of s]] .

text \<open>The snapshot a pass computes when it has loaded a dict, and the failures it logs.\<close>

lemma cycle_snapshot:
  assumes load: "load_hashes E w = (Inr (JObj hs), w0)"
  obtains f where "check_folder E w = Inr f" "new_keys f = scanned E w (os_walk w)"
    "\<And>p h. map_of (current_files f) p = Some h \<Longrightarrow> digest E w p = Some h"
    "\<And>p. p \<in> unreadable E w (os_walk w) \<Longrightarrow>
        Log ERROR (ErrorHashing p) \<in> set (trace (world f))"
proof (rule scan_dict [OF load])
  fix s :: "'a frame"
  assume run: "check_folder_scan E w = Inr s" and h: "hashes s = JObj hs"
    and nk: "new_keys s = scanned E w (os_walk w)"
    and dg: "\<And>p h. map_of (current_files s) p = Some h \<Longrightarrow> digest E w p = Some h"
    and lg: "\<And>p. p \<in> unreadable E w (os_walk w) \<Longrightarrow>
        Log ERROR (ErrorHashing p) \<in> set (trace (world s))"
  define v where "v = save_hashes E (current_files s) (world s)"
  define f where "f = summary (if changes_detected s \<or> set (map fst hs) \<noteq> new_keys s
                         then s\<lparr>world := v\<rparr> else s)"
  have res: "check_folder E w = Inr f"
    using check_folder_result [OF run h] by (simp add: f_def v_def)
  have fc: "current_files f = current_files s"
    by (simp add: f_def summary_fields)
  have "set (trace (world s)) \<subseteq> set (trace v)"
    using backup_hashes_trace_mono [of "world s"]
      save_hashes_trace_mono [of "world s" E "current_files s"]
    unfolding v_def by blast
  then have mono: "set (trace (world s)) \<subseteq> set (trace (world f))"
    using summary_trace_mono [of s] summary_trace_mono [of "s\<lparr>world := v\<rparr>"]
    by (auto simp: f_def)
  show thesis
  proof (rule that [OF res])
    show "new_keys f = scanned E w (os_walk w)" using nk by (simp add: new_keys_def fc)
    show "\<And>p h. map_of (current_files f) p = Some h \<Longrightarrow> digest E w p = Some h"
      using dg by (simp add: fc)
    show "\<And>p. p \<in> unreadable E w (os_walk w) \<Longrightarrow>
        Log ERROR (ErrorHashing p) \<in> set (trace (world f))"
      using lg mono by blast
  qed
qed

lemma digest_readable:
  assumes "\<forall>bs. sha256_hexdigest E bs \<noteq> []"
  shows "digest E w p = map_option (sha256_hexdigest E) (file_bytes w p)"
  using assms by (simp add: digest_def split: option.splits)

text \<open>
  C7. When the digest of one visited path fails (the file cannot be opened or read), the
  pass still completes: the failure is logged as an error, the failing path is not a key
  of the new snapshot, and every visited file that is readable and not excluded is a key
  of the new snapshot, with the digest of its whole content.
\<close>

theorem digest_failure_isolated:
  assumes load: "fst (load_hashes E w) = Inr (JObj old)"
    and hex: "\<forall>bs. sha256_hexdigest E bs \<noteq> []"
    and visit: "(root, files) \<in> set (os_walk w)" "fl \<in> set files"
      "\<not> dir_excluded E root" "\<not> ext_excluded E fl"
    and fail: "file_bytes w (os_path_join root fl) = None"
  shows "\<exists>s. check_folder E w = Inr s \<and>
           Log ERROR (ErrorHashing (os_path_join root fl)) \<in> set (trace (world s)) \<and>
           os_path_join root fl \<notin> new_keys s \<and>
           (\<forall>root' files' fl' bs.
              (root', files') \<in> set (os_walk w) \<and> fl' \<in> set files' \<and>
              \<not> dir_excluded E root' \<and> \<not> ext_excluded E fl' \<and>
              file_bytes w (os_path_join root' fl') = Some bs \<longrightarrow>
                map_of (current_files s) (os_path_join root' fl') = Some (sha256_hexdigest E bs))"
proof -
  obtain w0 where l: "load_hashes E w = (Inr (JObj old), w0)"
    using load by (cases "load_hashes E w") simp
  note dr = digest_readable [OF hex, of w]
  show ?thesis
  proof (rule cycle_snapshot [OF l])
    fix f :: "'a frame"
    assume res: "check_folder E w = Inr f" and nk: "new_keys f = scanned E w (os_walk w)"
      and dg: "\<And>p h. map_of (current_files f) p = Some h \<Longrightarrow> digest E w p = Some h"
      and lg: "\<And>p. p \<in> unreadable E w (os_walk w) \<Longrightarrow>
          Log ERROR (ErrorHashing p) \<in> set (trace (world f))"
    have "os_path_join root fl \<in> unreadable E w (os_walk w)"
      unfolding unreadable_iff using visit fail by blast
    then have a: "Log ERROR (ErrorHashing (os_path_join root fl)) \<in> set (trace (world f))"
      by (rule lg)
    have b: "os_path_join root fl \<notin> new_keys f"
      unfolding nk scanned_iff using fail by (simp add: dr)
    have c: "map_of (current_files f) (os_path_join root' fl') = Some (sha256_hexdigest E bs)"
      if v: "(root', files') \<in> set (os_walk w)" "fl' \<in> set files'"
        "\<not> dir_excluded E root'" "\<not> ext_excluded E fl'"
        and r: "file_bytes w (os_path_join root' fl') = Some bs"
      for root' files' fl' bs
    proof -
      have "digest E w (os_path_join root' fl') \<noteq> None" using r by (simp add: dr)
      with v have "os_path_join root' fl' \<in> new_keys f"
        unfolding nk scanned_iff by blast
      then obtain h where h: "map_of (current_files f) (os_path_join root' fl') = Some h"
        unfolding new_keys_map_of by blast
      from dg [OF h] r have "h = sha256_hexdigest E bs" by (simp add: dr)
      with h show ?thesis by simp
    qed
    show ?thesis using res a b c by blast
  qed
qed

theorem digest_failure_isolated_witness:
  "fst (load_hashes demo_env (demo_world demo_old_state)) = Inr (JObj demo_old) \<and>
   (\<forall>bs. sha256_hexdigest demo_env bs \<noteq> []) \<and>
   (''test_folder'', [''a.txt'', ''cache.tmp'', ''locked.txt'']) \<in> set (os_walk (demo_world demo_old_state)) \<and>
   \<not> dir_excluded demo_env ''test_folder'' \<and> \<not> ext_excluded demo_env ''locked.txt'' \<and>
   file_bytes (demo_world demo_old_state) (os_path_join ''test_folder'' ''locked.txt'') = None \<and>
   (\<exists>s. check_folder demo_env (demo_world demo_old_state) = Inr s \<and>
        Log ERROR (ErrorHashing ''test_folder/locked.txt'') \<in> set (trace (world s)) \<and>
        ''test_folder/locked.txt'' \<notin> new_keys s \<and>
        map_of (current_files s) ''test_folder/a.txt'' = Some ''sha256:hello'' \<and>
        map_of (current_files s) ''test_folder/sub/b.txt'' = Some ''sha256:world'')"
proof -
  let ?w = "demo_world demo_old_state"
  have h: "fst (load_hashes demo_env ?w) = Inr (JObj demo_old)"
    by (simp add: load_hashes_def io_defs demo_env_def demo_world_def demo_file_def
          demo_old_state_def)
  have hex: "\<forall>bs. sha256_hexdigest demo_env bs \<noteq> []"
    by (simp add: demo_env_def)
  have walk: "os_walk ?w = [(''test_folder'', [''a.txt'', ''cache.tmp'', ''locked.txt'']),
                 (''test_folder/.git'', [''config'']),
                 (''test_folder/sub'', [''b.txt''])]"
    by (simp add: demo_world_def)
  have v1: "(''test_folder'', [''a.txt'', ''cache.tmp'', ''locked.txt'']) \<in> set (os_walk ?w)"
    and v3: "(''test_folder/sub'', [''b.txt'']) \<in> set (os_walk ?w)"
    by (simp_all add: walk)
  have d1: "\<not> dir_excluded demo_env ''test_folder''"
    and d3: "\<not> dir_excluded demo_env ''test_folder/sub''"
    and e1: "\<not> ext_excluded demo_env ''locked.txt''"
    and e2: "\<not> ext_excluded demo_env ''a.txt''"
    and e3: "\<not> ext_excluded demo_env ''b.txt''"
    by code_simp+
  have j: "os_path_join ''test_folder'' ''locked.txt'' = ''test_folder/locked.txt''"
    "os_path_join ''test_folder'' ''a.txt'' = ''test_folder/a.txt''"
    "os_path_join ''test_folder/sub'' ''b.txt'' = ''test_folder/sub/b.txt''"
    by code_simp+
  have fb: "file_bytes ?w = demo_bytes" by (simp add: demo_world_def)
  have b: "demo_bytes ''test_folder/locked.txt'' = None"
    "demo_bytes ''test_folder/a.txt'' = Some ''hello''"
    "demo_bytes ''test_folder/sub/b.txt'' = Some ''world''"
    by (simp_all add: demo_bytes_def)
  have sh: "sha256_hexdigest demo_env ''hello'' = ''sha256:hello''"
    "sha256_hexdigest demo_env ''world'' = ''sha256:world''"
    by (simp_all add: demo_env_def)
  have fail: "file_bytes ?w (os_path_join ''test_folder'' ''locked.txt'') = None"
    by (simp add: j fb b)
  from digest_failure_isolated [OF h hex v1 _ d1 e1 fail]
  obtain s where s: "check_folder demo_env ?w = Inr s"
    "Log ERROR (ErrorHashing (os_path_join ''test_folder'' ''locked.txt'')) \<in> set (trace (world s))"
    "os_path_join ''test_folder'' ''locked.txt'' \<notin> new_keys s"
    and all: "\<And>root' files' fl' bs.
              (root', files') \<in> set (os_walk ?w) \<Longrightarrow> fl' \<in> set files' \<Longrightarrow>
              \<not> dir_excluded demo_env root' \<Longrightarrow> \<not> ext_excluded demo_env fl' \<Longrightarrow>
              file_bytes ?w (os_path_join root' fl') = Some bs \<Longrightarrow>
                map_of (current_files s) (os_path_join root' fl') = Some (sha256_hexdigest demo_env bs)"
    by auto
  have a1: "map_of (current_files s) ''test_folder/a.txt'' = Some ''sha256:hello''"
    using all [OF v1 _ d1 e2, of "''hello''"] by (simp add: j fb b sh)
  have a3: "map_of (current_files s) ''test_folder/sub/b.txt'' = Some ''sha256:world''"
    using all [OF v3 _ d3 e3, of "''world''"] by (simp add: j fb b sh)
  show ?thesis
    using h hex v1 d1 e1 fail s a1 a3 by (auto simp: j)
qed

text \<open>
  C2. For every file that \<^verbatim>\<open>os.walk\<close> lists under the watched root and every exclusion
  policy whose directory fragments contain no separator: the file's path is a key of the
  new snapshot exactly when the file is readable and the policy does not exclude it, where
  the policy excludes a file when a directory segment of its root contains an excluded
  fragment or its name ends with an excluded extension. Hence a file matching neither
  rule is in the snapshot when it is readable, and a file matching either rule is in no
  snapshot, whatever its content. (File names contain no separator, as on every file
  system; the digest function never returns the empty string.)
\<close>

theorem exclusion_decides_membership:
  assumes load: "fst (load_hashes E w) = Inr (JObj old)"
    and hex: "\<forall>bs. sha256_hexdigest E bs \<noteq> []"
    and frag: "\<forall>frag \<in> set (EXCLUDE_DIRECTORIES E). CHR ''/'' \<notin> set frag"
    and names: "\<forall>(r, fs) \<in> set (os_walk w). \<forall>f \<in> set fs. CHR ''/'' \<notin> set f"
    and visit: "(root, files) \<in> set (os_walk w)" "fl \<in> set files"
  shows "\<exists>s. check_folder E w = Inr s \<and>
           (os_path_join root fl \<in> new_keys s \<longleftrightarrow>
              \<not> spec_excluded E root fl \<and> file_bytes w (os_path_join root fl) \<noteq> None)"
proof -
  obtain w0 where l: "load_hashes E w = (Inr (JObj old), w0)"
    using load by (cases "load_hashes E w") simp
  note dr = digest_readable [OF hex, of w]
  have nf: "CHR ''/'' \<notin> set fl" using names visit by blast
  show ?thesis
  proof (rule cycle_snapshot [OF l])
    fix f :: "'a frame"
    assume res: "check_folder E w = Inr f" and nk: "new_keys f = scanned E w (os_walk w)"
    have "os_path_join root fl \<in> new_keys f \<longleftrightarrow>
            \<not> spec_excluded E root fl \<and> file_bytes w (os_path_join root fl) \<noteq> None"
    proof
      assume "os_path_join root fl \<in> new_keys f"
      then obtain root' files' fl' where v: "(root', files') \<in> set (os_walk w)"
        "\<not> dir_excluded E root'" "fl' \<in> set files'" "\<not> ext_excluded E fl'"
        and p: "os_path_join root fl = os_path_join root' fl'"
        and d: "digest E w (os_path_join root fl) \<noteq> None"
        unfolding nk scanned_iff by blast
      have nf': "CHR ''/'' \<notin> set fl'" using names v(1) v(3) by blast
      note same = same_path_same_verdict [OF frag nf nf' p]
      have "\<not> dir_excluded E root" "\<not> ext_excluded E fl"
        using same v by simp_all
      then have "\<not> spec_excluded E root fl"
        by (simp add: spec_excluded_iff [OF frag])
      moreover have "file_bytes w (os_path_join root fl) \<noteq> None"
        using d by (simp add: dr)
      ultimately show "\<not> spec_excluded E root fl \<and> file_bytes w (os_path_join root fl) \<noteq> None"
        by simp
    next
      assume a: "\<not> spec_excluded E root fl \<and> file_bytes w (os_path_join root fl) \<noteq> None"
      then have "\<not> dir_excluded E root" "\<not> ext_excluded E fl"
        by (simp_all add: spec_excluded_iff [OF frag])
      moreover have "digest E w (os_path_join root fl) \<noteq> None"
        using a by (simp add: dr)
      ultimately show "os_path_join root fl \<in> new_keys f"
        unfolding nk scanned_iff using visit by blast
    qed
    with res show ?thesis by blast
  qed
qed

theorem exclusion_decides_membership_witness:
  "fst (load_hashes demo_env (demo_world demo_old_state)) = Inr (JObj demo_old) \<and>
   (\<forall>bs. sha256_hexdigest demo_env bs \<noteq> []) \<and>
   list_all (\<lambda>frag. CHR ''/'' \<notin> set frag) (EXCLUDE_DIRECTORIES demo_env) \<and>
   list_all (\<lambda>(r, fs). list_all (\<lambda>f. CHR ''/'' \<notin> set f) fs) (os_walk (demo_world demo_old_state)) \<and>
   spec_excluded demo_env ''test_folder/.git'' ''config'' \<and>
   spec_excluded demo_env ''test_folder'' ''cache.tmp'' \<and>
   \<not> spec_excluded demo_env ''test_folder'' ''a.txt'' \<and>
   (\<exists>s. check_folder demo_env (demo_world demo_old_state) = Inr s \<and>
        ''test_folder/a.txt'' \<in> new_keys s) \<and>
   (\<exists>s. check_folder demo_env (demo_world demo_old_state) = Inr s \<and>
        ''test_folder/cache.tmp'' \<notin> new_keys s) \<and>
   (\<exists>s. check_folder demo_env (demo_world demo_old_state) = Inr s \<and>
        ''test_folder/.git/config'' \<notin> new_keys s)"
proof -
  let ?w = "demo_world demo_old_state"
  have h: "fst (load_hashes demo_env ?w) = Inr (JObj demo_old)"
    by (simp add: load_hashes_def io_defs demo_env_def demo_world_def demo_file_def
          demo_old_state_def)
  have hex: "\<forall>bs. sha256_hexdigest demo_env bs \<noteq> []"
    by (simp add: demo_env_def)
  have walk: "os_walk ?w = [(''test_folder'', [''a.txt'', ''cache.tmp'', ''locked.txt'']),
                 (''test_folder/.git'', [''config'']),
                 (''test_folder/sub'', [''b.txt''])]"
    by (simp add: demo_world_def)
  have fr: "list_all (\<lambda>frag. CHR ''/'' \<notin> set frag) (EXCLUDE_DIRECTORIES demo_env)"
    by (simp add: demo_env_def source_EXCLUDE_DIRECTORIES_def)
  have nm: "list_all (\<lambda>(r, fs). list_all (\<lambda>f. CHR ''/'' \<notin> set f) fs) (os_walk ?w)"
    by (simp add: walk)
  have frag: "\<forall>frag \<in> set (EXCLUDE_DIRECTORIES demo_env). CHR ''/'' \<notin> set frag"
    using fr by (simp add: list_all_iff)
  have names: "\<forall>(r, fs) \<in> set (os_walk ?w). \<forall>f \<in> set fs. CHR ''/'' \<notin> set f"
    using nm by (simp add: list_all_iff)
  have v1: "(''test_folder'', [''a.txt'', ''cache.tmp'', ''locked.txt'']) \<in> set (os_walk ?w)"
    and v2: "(''test_folder/.git'', [''config'']) \<in> set (os_walk ?w)"
    by (simp_all add: walk)
  have x: "spec_excluded demo_env ''test_folder/.git'' ''config''"
    "spec_excluded demo_env ''test_folder'' ''cache.tmp''"
    "\<not> spec_excluded demo_env ''test_folder'' ''a.txt''"
    by code_simp+
  have j: "os_path_join ''test_folder'' ''cache.tmp'' = ''test_folder/cache.tmp''"
    "os_path_join ''test_folder'' ''a.txt'' = ''test_folder/a.txt''"
    "os_path_join ''test_folder/.git'' ''config'' = ''test_folder/.git/config''"
    by code_simp+
  have b: "file_bytes ?w ''test_folder/a.txt'' \<noteq> None"
    by (simp add: demo_world_def demo_bytes_def)
  have t1: "\<exists>s. check_folder demo_env ?w = Inr s \<and> ''test_folder/a.txt'' \<in> new_keys s"
    using exclusion_decides_membership [OF h hex frag names v1, of "''a.txt''"] x b
    by (simp add: j)
  have t2: "\<exists>s. check_folder demo_env ?w = Inr s \<and> ''test_folder/cache.tmp'' \<notin> new_keys s"
    using exclusion_decides_membership [OF h hex frag names v1, of "''cache.tmp''"] x
    by (simp add: j)
  have t3: "\<exists>s. check_folder demo_env ?w = Inr s \<and> ''test_folder/.git/config'' \<notin> new_keys s"
    using exclusion_decides_membership [OF h hex frag names v2, of "''config''"] x
    by (simp add: j)
  show ?thesis
    using h hex fr nm x t1 t2 t3 by blast
qed

subsection \<open>A corrupt state file\<close>

text \<open>
  What \<open>load_hashes\<close> does handle: no state file, and a state file that is not JSON, give
  the empty dict (the latter with a warning), and a state file that parses gives the
  parsed value.
\<close>

lemma load_hashes_missing:
  "content (hash_file w) = None \<Longrightarrow> load_hashes E w = (Inr (JObj []), w)"
  by (simp add: load_hashes_def path_exists_def)

lemma load_hashes_not_json:
  assumes "content (hash_file w) = Some t" "read_fault (hash_file w) = None" "json_loads E t = None"
  shows "load_hashes E w = (Inr (JObj []), logging WARNING ErrorReadingHashFile w)"
  using assms by (simp add: load_hashes_def path_exists_def read_text_def)

lemma load_hashes_parsed:
  assumes "content (hash_file w) = Some t" "read_fault (hash_file w) = None" "json_loads E t = Some v"
  shows "load_hashes E w = (Inr v, w)"
  using assms by (simp add: load_hashes_def path_exists_def read_text_def)

text \<open>
  C4, where the code departs from it. A state file that is valid JSON but not an object
  (here the empty list) is returned as it is, with no warning and no reset; a state file
  whose bytes cannot be decoded as text makes \<open>load_hashes\<close> raise, since only
  \<^verbatim>\<open>JSONDecodeError\<close> is caught.
\<close>

theorem load_hashes_wrong_shape:
  "fst (load_hashes demo_env (demo_world (demo_file (Some (Doc (JArr [])))))) = Inr (JArr []) \<and>
   trace (snd (load_hashes demo_env (demo_world (demo_file (Some (Doc (JArr []))))))) = [] \<and>
   fst (load_hashes demo_env
         (demo_world \<lparr>content = Some (Doc (JObj [])), read_fault = Some UnicodeDecodeError, write_fault = None\<rparr>)) =
     Inl UnicodeDecodeError"
  by (simp add: load_hashes_def io_defs demo_env_def demo_world_def demo_file_def)

text \<open>
  C3, where the code departs from it. With a state file holding the JSON list \<open>[]\<close> the
  pass raises \<^verbatim>\<open>AttributeError\<close> at \<^verbatim>\<open>hashes.keys()\<close> (line 149), and with a state file
  that cannot be decoded it raises out of \<open>load_hashes\<close>; \<open>monitor_files\<close> catches only
  \<^verbatim>\<open>KeyboardInterrupt\<close>, so the process ends with that exception in its first pass. (A state
  file that is not JSON is handled: the run goes on until the interrupt.)
\<close>

theorem corrupt_state_ends_monitor:
  "raised (check_folder demo_env (demo_world (demo_file (Some (Doc (JArr [])))))) =
     Some AttributeError \<and>
   raised (monitor_files demo_env [\<lambda>w. w, \<lambda>w. w]
            (demo_world (demo_file (Some (Doc (JArr [])))))) =
     Some AttributeError \<and>
   raised (monitor_files demo_env [\<lambda>w. w, \<lambda>w. w]
            (demo_world \<lparr>content = Some (Doc (JObj [])), read_fault = Some UnicodeDecodeError, write_fault = None\<rparr>)) =
     Some UnicodeDecodeError \<and>
   raised (monitor_files demo_env [\<lambda>w. w, \<lambda>w. w] (demo_world (demo_file (Some Junk)))) = None"
  by code_simp

subsection \<open>What the log reports\<close>

lemma reported_append:
  "reported (a @ b) = reported a @ reported b"
  "reported_deleted (a @ b) = reported_deleted a @ reported_deleted b"
  by (simp_all add: reported_def reported_deleted_def)

lemma reported_emit:
  "reported (trace (emit e w)) = reported (trace w) @ report_of e"
  "reported_deleted (trace (emit e w)) = reported_deleted (trace w) @ deletion_of e"
  by (simp_all add: emit_def reported_def reported_deleted_def)

lemma reported_send_email_alert:
  "reported (trace (send_email_alert E p c w)) = reported (trace w)"
  "reported_deleted (trace (send_email_alert E p c w)) = reported_deleted (trace w)"
  by (simp_all add: send_email_alert_def logging_def reported_emit report_of_def deletion_of_def)

lemma check_file_reported:
  assumes hs: "hashes s = JObj hs" and run: "check_file E root fl s = Inr s'"
  shows "reported (trace (world s')) =
           reported (trace (world s)) @
             filter (\<lambda>(p, c). c \<noteq> Unchanged) (drop (length (branch_taken s)) (branch_taken s'))"
    "reported_deleted (trace (world s')) = reported_deleted (trace (world s))"
  using assms
  by (auto simp: check_file_def Let_def calculate_file_hash_result reported_send_email_alert
        logging_def print_def reported_emit report_of_def deletion_of_def
        split: if_splits option.splits sum.splits bool.splits)

lemma check_file_branch_prefix:
  assumes "hashes s = JObj hs" "check_file E root fl s = Inr s'"
  shows "take (length (branch_taken s)) (branch_taken s') = branch_taken s"
    "length (branch_taken s) \<le> length (branch_taken s')"
  using assms
  by (auto simp: check_file_def Let_def calculate_file_hash_result
        split: if_splits option.splits sum.splits bool.splits)


lemma check_file_reports:
  assumes hs: "hashes s = JObj hs" and run: "check_file E root fl s = Inr s'"
  shows "\<exists>bt. branch_taken s' = branch_taken s @ bt \<and>
           reported (trace (world s')) =
             reported (trace (world s)) @ filter (\<lambda>(p, c). c \<noteq> Unchanged) bt \<and>
           reported_deleted (trace (world s')) = reported_deleted (trace (world s))"
proof -
  define bt where "bt = drop (length (branch_taken s)) (branch_taken s')"
  have "branch_taken s' = take (length (branch_taken s)) (branch_taken s') @ bt"
    by (simp add: bt_def)
  then have "branch_taken s' = branch_taken s @ bt"
    using check_file_branch_prefix(1) [OF hs run] by simp
  moreover note check_file_reported [OF hs run, folded bt_def]
  ultimately show ?thesis by blast
qed

lemma check_files_reports:
  assumes "hashes s = JObj hs" "check_files E root files s = Inr s'"
  shows "\<exists>bt. branch_taken s' = branch_taken s @ bt \<and>
           reported (trace (world s')) =
             reported (trace (world s)) @ filter (\<lambda>(p, c). c \<noteq> Unchanged) bt \<and>
           reported_deleted (trace (world s')) = reported_deleted (trace (world s))"
  using assms
proof (induction files arbitrary: s)
  case Nil
  then show ?case by simp
next
  case (Cons f files)
  from check_file_total [OF Cons.prems(1), of E root f]
  obtain s1 where run1: "check_file E root f s = Inr s1" by blast
  note fr = check_file_frame [OF Cons.prems(1) run1]
  have run': "check_files E root files s1 = Inr s'"
    using Cons.prems(2) run1 by simp
  from check_file_reports [OF Cons.prems(1) run1]
  obtain b1 where b1: "branch_taken s1 = branch_taken s @ b1"
    "reported (trace (world s1)) =
       reported (trace (world s)) @ filter (\<lambda>(p, c). c \<noteq> Unchanged) b1"
    "reported_deleted (trace (world s1)) = reported_deleted (trace (world s))"
    by blast
  from Cons.IH [OF fr(1) run']
  obtain b2 where b2: "branch_taken s' = branch_taken s1 @ b2"
    "reported (trace (world s')) =
       reported (trace (world s1)) @ filter (\<lambda>(p, c). c \<noteq> Unchanged) b2"
    "reported_deleted (trace (world s')) = reported_deleted (trace (world s1))"
    by blast
  have "branch_taken s' = branch_taken s @ (b1 @ b2)"
    "reported (trace (world s')) =
       reported (trace (world s)) @ filter (\<lambda>(p, c). c \<noteq> Unchanged) (b1 @ b2)"
    "reported_deleted (trace (world s')) = reported_deleted (trace (world s))"
    using b1 b2 by simp_all
  then show ?case by blast
qed

lemma check_roots_reports:
  assumes "hashes s = JObj hs" "check_roots E walk s = Inr s'"
  shows "\<exists>bt. branch_taken s' = branch_taken s @ bt \<and>
           reported (trace (world s')) =
             reported (trace (world s)) @ filter (\<lambda>(p, c). c \<noteq> Unchanged) bt \<and>
           reported_deleted (trace (world s')) = reported_deleted (trace (world s))"
  using assms
proof (induction walk arbitrary: s)
  case Nil
  then show ?case by simp
next
  case (Cons rf rest)
  obtain root files where rf: "rf = (root, files)" by (cases rf)
  show ?case
  proof (cases "dir_excluded E root")
    case True
    then have "check_roots E rest s = Inr s'"
      using Cons.prems(2) by (simp add: rf dir_excluded_def)
    from Cons.IH [OF Cons.prems(1) this] show ?thesis .
  next
    case False
    from check_files_dict [OF Cons.prems(1), of E root files "world s"]
    obtain s1 where run1: "check_files E root files s = Inr s1" and h1: "hashes s1 = JObj hs"
      by blast
    have run': "check_roots E rest s1 = Inr s'"
      using Cons.prems(2) run1 False by (simp add: rf dir_excluded_def)
    from check_files_reports [OF Cons.prems(1) run1]
    obtain b1 where b1: "branch_taken s1 = branch_taken s @ b1"
      "reported (trace (world s1)) =
         reported (trace (world s)) @ filter (\<lambda>(p, c). c \<noteq> Unchanged) b1"
      "reported_deleted (trace (world s1)) = reported_deleted (trace (world s))"
      by blast
    from Cons.IH [OF h1 run']
    obtain b2 where b2: "branch_taken s' = branch_taken s1 @ b2"
      "reported (trace (world s')) =
         reported (trace (world s1)) @ filter (\<lambda>(p, c). c \<noteq> Unchanged) b2"
      "reported_deleted (trace (world s')) = reported_deleted (trace (world s1))"
      by blast
    have "branch_taken s' = branch_taken s @ (b1 @ b2)"
      "reported (trace (world s')) =
         reported (trace (world s)) @ filter (\<lambda>(p, c). c \<noteq> Unchanged) (b1 @ b2)"
      "reported_deleted (trace (world s')) = reported_deleted (trace (world s))"
      using b1 b2 by simp_all
    then show ?thesis by blast
  qed
qed

lemma fold_report_deleted_reports:
  "reported (trace (world (fold (report_deleted E) dels s))) = reported (trace (world s))"
  "reported_deleted (trace (world (fold (report_deleted E) dels s))) =
     reported_deleted (trace (world s)) @ dels"
  by (induction dels arbitrary: s)
     (simp_all add: report_deleted_def reported_send_email_alert logging_def print_def
        reported_emit report_of_def deletion_of_def)

lemma load_hashes_reports:
  "reported (trace (snd (load_hashes E w))) = reported (trace w)"
  "reported_deleted (trace (snd (load_hashes E w))) = reported_deleted (trace w)"
  by (simp_all add: load_hashes_def logging_def reported_emit report_of_def deletion_of_def
        split: sum.splits option.splits)

lemma save_hashes_reports:
  "reported (trace (save_hashes E S w)) = reported (trace w)"
  "reported_deleted (trace (save_hashes E S w)) = reported_deleted (trace w)"
  by (simp_all add: save_hashes_def backup_hashes_def Let_def logging_def reported_emit
        report_of_def deletion_of_def emit_fields
        split: sum.splits option.splits prod.splits)

lemma summary_reports:
  "reported (trace (world (summary s))) = reported (trace (world s))"
  "reported_deleted (trace (world (summary s))) = reported_deleted (trace (world s))"
  by (simp_all add: summary_def logging_def print_def reported_emit report_of_def deletion_of_def)

text \<open>
  The classes are what the pass reports: the log of a pass that loaded a dict names,
  in order, exactly the paths that took the added and the modified branch, and exactly
  the deleted paths.
\<close>

lemma classes_are_reported:
  assumes load: "fst (load_hashes E w) = Inr (JObj hs)"
  shows "\<exists>f. check_folder E w = Inr f \<and>
           reported (trace (world f)) =
             reported (trace w) @ filter (\<lambda>(p, c). c \<noteq> Unchanged) (branch_taken f) \<and>
           reported_deleted (trace (world f)) = reported_deleted (trace w) @ deleted_files f"
proof -
  obtain w0 where l: "load_hashes E w = (Inr (JObj hs), w0)"
    using load by (cases "load_hashes E w") simp
  have r0: "reported (trace w0) = reported (trace w)"
    "reported_deleted (trace w0) = reported_deleted (trace w)"
    using load_hashes_reports [of E w] l by simp_all
  define s0 :: "'a frame" where "s0 = \<lparr>hashes = JObj hs, changes_detected = False, file_count = 0,
      current_files = [], branch_taken = [], deleted_files = [], world = w0\<rparr>"
  have h0: "hashes s0 = JObj hs" by (simp add: s0_def)
  from check_roots_dict [OF h0, of E "os_walk w0" w0]
  obtain s1 where run1: "check_roots E (os_walk w0) s0 = Inr s1" and h1: "hashes s1 = JObj hs"
    by blast
  from check_roots_reports [OF h0 run1]
  have r1: "reported (trace (world s1)) =
              reported (trace w) @ filter (\<lambda>(p, c). c \<noteq> Unchanged) (branch_taken s1)"
    "reported_deleted (trace (world s1)) = reported_deleted (trace w)"
    by (auto simp: s0_def r0)
  define dels where "dels = filter (\<lambda>k. k \<notin> set (map fst (current_files s1))) (remdups (map fst hs))"
  define s where "s = fold (report_deleted E) dels (s1\<lparr>deleted_files := dels\<rparr>)"
  have run: "check_folder_scan E w = Inr s"
    using l run1 h1
    by (simp add: check_folder_scan_def s0_def [symmetric] Let_def s_def dels_def)
  from fold_report_deleted [of E dels "s1\<lparr>deleted_files := dels\<rparr>"]
  have fs: "hashes s = JObj hs" "branch_taken s = branch_taken s1" "deleted_files s = dels"
    by (simp_all add: s_def h1)
  have r: "reported (trace (world s)) =
              reported (trace w) @ filter (\<lambda>(p, c). c \<noteq> Unchanged) (branch_taken s)"
    "reported_deleted (trace (world s)) = reported_deleted (trace w) @ deleted_files s"
    using fold_report_deleted_reports [of E dels "s1\<lparr>deleted_files := dels\<rparr>"] r1
    by (simp_all add: fs s_def [symmetric])
  define f where "f = summary (if changes_detected s \<or> set (map fst hs) \<noteq> new_keys s
                         then s\<lparr>world := save_hashes E (current_files s) (world s)\<rparr> else s)"
  have res: "check_folder E w = Inr f"
    using check_folder_result [OF run fs(1)] by (simp add: f_def)
  have "reported (trace (world f)) = reported (trace (world s))"
    "reported_deleted (trace (world f)) = reported_deleted (trace (world s))"
    "branch_taken f = branch_taken s" "deleted_files f = deleted_files s"
    by (simp_all add: f_def summary_reports save_hashes_reports summary_fields)
  with r res show ?thesis by simp
qed

subsection \<open>A pass on the concrete folder\<close>

theorem classes_are_reported_witness:
  "fst (load_hashes demo_env (demo_world demo_old_state)) = Inr (JObj demo_old) \<and>
   (\<exists>f. check_folder demo_env (demo_world demo_old_state) = Inr f \<and>
        reported (trace (world f)) = filter (\<lambda>(p, c). c \<noteq> Unchanged) (branch_taken f) \<and>
        reported_deleted (trace (world f)) = deleted_files f)"
proof -
  have h: "fst (load_hashes demo_env (demo_world demo_old_state)) = Inr (JObj demo_old)"
    by (simp add: load_hashes_def io_defs demo_env_def demo_world_def demo_file_def
          demo_old_state_def)
  have t: "trace (demo_world demo_old_state) = []" by (simp add: demo_world_def)
  from classes_are_reported [OF h] h show ?thesis
    by (simp add: t reported_def reported_deleted_def)
qed

text \<open>With the older snapshot in the state file, the pass finds \<open>a.txt\<close> modified,
  \<open>sub/b.txt\<close> added and \<open>gone.txt\<close> deleted, and reports just that.\<close>

lemma demo_pass:
  "map_sum id (\<lambda>f. (branch_taken f, deleted_files f, reported (trace (world f)),
      reported_deleted (trace (world f))))
     (check_folder demo_env (demo_world demo_old_state)) =
   Inr ([(''test_folder/a.txt'', Modified), (''test_folder/sub/b.txt'', Added)],
        [''test_folder/gone.txt''],
        [(''test_folder/a.txt'', Modified), (''test_folder/sub/b.txt'', Added)],
        [''test_folder/gone.txt''])"
  by code_simp

end
